theory Spec2Isabelle
  imports Main "HOL-Library.Sublist"
begin

section \<open>The repair pass of fix-ai-permission-controller.py\<close>

text \<open>
  The script reads a TypeScript file, splits it into lines, scans the lines once from
  top to bottom and writes the joined result back. While scanning it remembers the
  name of the last \<^verbatim>\<open>export async function\<close> header it has read; a line that contains
  the broken call \<^verbatim>\<open>handleControllerError(error, res, ',\<close> is replaced by a complete
  call naming that function, and the lines after it are dropped up to the first two
  consecutive lines that are a lone \<^verbatim>\<open>}\<close>, of which one is written back.
\<close>

subsection \<open>Strings\<close>

text \<open>
  A Python \<^verbatim>\<open>str\<close> is a sequence of Unicode code points, so a string is a list of
  code points here, and a literal of the script is written \<open>lit ''...''\<close>.
\<close>

type_synonym str = "nat list"

definition lit :: "string \<Rightarrow> str" where
  "lit s = map of_char s"

text \<open>
  \<^verbatim>\<open>str.strip()\<close> removes the characters for which \<^verbatim>\<open>str.isspace\<close> holds from both
  ends: the ASCII controls 9 to 13 and 28 to 31, the space, and the Unicode spaces
  U+0085, U+00A0, U+1680, U+2000 to U+200A, U+2028, U+2029, U+202F, U+205F, U+3000.
\<close>

definition is_space :: "nat \<Rightarrow> bool" where
  "is_space c = ((9 \<le> c \<and> c \<le> 13) \<or> (28 \<le> c \<and> c \<le> 32) \<or> c = 133 \<or> c = 160 \<or>
     c = 5760 \<or> (8192 \<le> c \<and> c \<le> 8202) \<or> c = 8232 \<or> c = 8233 \<or> c = 8239 \<or>
     c = 8287 \<or> c = 12288)"

definition strip :: "str \<Rightarrow> str" where
  "strip s = rev (dropWhile is_space (rev (dropWhile is_space s)))"

text \<open>
  The class \<^verbatim>\<open>\w\<close> of a \<^verbatim>\<open>str\<close> pattern: the ASCII letters and digits, the underscore,
  and the code points from 128 on that the Unicode database calls alphanumeric. That
  table belongs to the Python runtime, not to the script, so it is the parameter
  \<open>uni\<close> of everything that follows; every theorem holds for every table.
\<close>

definition is_word :: "(nat \<Rightarrow> bool) \<Rightarrow> nat \<Rightarrow> bool" where
  "is_word uni c = ((48 \<le> c \<and> c \<le> 57) \<or> (65 \<le> c \<and> c \<le> 90) \<or> c = 95 \<or>
     (97 \<le> c \<and> c \<le> 122) \<or> (128 \<le> c \<and> uni c))"

definition ascii_only :: "nat \<Rightarrow> bool" where
  "ascii_only c = False"

subsection \<open>The two line tests and the two written lines\<close>

text \<open>
  \<^verbatim>\<open>re.match(r'^export async function (\w+)\(', line)\<close> and its group 1. The name
  is the longest run of word characters after the fixed prefix: it must not be empty,
  and the character after it must be the opening parenthesis (code point 40), which is
  not a word character, so no shorter run can match either.
\<close>

definition func_match :: "(nat \<Rightarrow> bool) \<Rightarrow> str \<Rightarrow> str option" where
  "func_match uni line =
     (let p = lit ''export async function '' in
      if prefix p line then
        (let rest = drop (length p) line;
             name = takeWhile (is_word uni) rest;
             after = dropWhile (is_word uni) rest
         in if name \<noteq> [] \<and> after \<noteq> [] \<and> hd after = 40 then Some name else None)
      else None)"

text \<open>\<^verbatim>\<open>if func_match: current_function = func_match.group(1)\<close>\<close>

definition track_function :: "(nat \<Rightarrow> bool) \<Rightarrow> str option \<Rightarrow> str \<Rightarrow> str option" where
  "track_function uni cf line =
     (case func_match uni line of Some name \<Rightarrow> Some name | None \<Rightarrow> cf)"

text \<open>\<^verbatim>\<open>"handleControllerError(error, res, '," in line\<close>\<close>

definition malformed :: "str \<Rightarrow> bool" where
  "malformed line = sublist (lit ''handleControllerError(error, res, ','') line"

text \<open>\<^verbatim>\<open>lines[i].strip() == '}'\<close>\<close>

definition closing :: "str \<Rightarrow> bool" where
  "closing line = (strip line = lit ''}'')"

text \<open>
  How an f-string prints \<^verbatim>\<open>current_function\<close>: the name, or the text None while no
  header has been read.
\<close>

definition fmt :: "str option \<Rightarrow> str" where
  "fmt cf = (case cf of None \<Rightarrow> lit ''None'' | Some name \<Rightarrow> name)"

text \<open>
  \<^verbatim>\<open>f"    handleControllerError(error, res, 'AiPermissionController.{current_function}');"\<close>
\<close>

definition replacement :: "str option \<Rightarrow> str" where
  "replacement cf =
     lit ''    handleControllerError(error, res, 'AiPermissionController.'' @ fmt cf @
     lit (CHR 0x27 # '');'')"

definition closing_line :: str where
  "closing_line = lit ''  }''"

subsection \<open>The scan\<close>

text \<open>
  The variables of the loop: \<open>idx\<close> is the script's \<^verbatim>\<open>i\<close>, the others keep their names.
\<close>

record scan_state =
  idx :: nat
  new_lines :: "str list"
  current_function :: "str option"

definition initial_state :: scan_state where
  "initial_state = \<lparr>idx = 0, new_lines = [], current_function = None\<rparr>"

text \<open>
  The inner loop, entered with \<open>k\<close> one past the malformed line. It returns the value
  of \<^verbatim>\<open>i\<close> and the output when it is left: at the second brace after the
  \<^verbatim>\<open>break\<close>, or at \<open>length lines\<close> when the two braces never come.
\<close>

function skip_malformed :: "str list \<Rightarrow> nat \<Rightarrow> str list \<Rightarrow> nat \<times> str list" where
  "skip_malformed lines k out =
     (if k < length lines then
        (if closing (lines ! k) \<and> k + 1 < length lines \<and> closing (lines ! (k + 1))
         then (k + 1, out @ [closing_line])
         else skip_malformed lines (k + 1) out)
      else (k, out))"
  by pat_completeness auto
termination
  by (relation "measure (\<lambda>(lines, k, out). length lines - k)") auto

declare skip_malformed.simps [simp del]

text \<open>One round of the outer loop, for \<open>idx s < length lines\<close>.\<close>

definition loop_body :: "(nat \<Rightarrow> bool) \<Rightarrow> str list \<Rightarrow> scan_state \<Rightarrow> scan_state" where
  "loop_body uni lines s =
     (let line = lines ! idx s;
          cf = track_function uni (current_function s) line
      in if malformed line then
           (let (k, out) = skip_malformed lines (idx s + 1) (new_lines s @ [replacement cf])
            in \<lparr>idx = k + 1, new_lines = out, current_function = cf\<rparr>)
         else \<lparr>idx = idx s + 1, new_lines = new_lines s @ [line], current_function = cf\<rparr>)"

lemma skip_malformed_ge: "k \<le> fst (skip_malformed lines k out)"
proof (induction lines k out rule: skip_malformed.induct)
  case (1 lines k out)
  show ?case
  proof (cases "k < length lines \<and>
      \<not> (closing (lines ! k) \<and> k + 1 < length lines \<and> closing (lines ! (k + 1)))")
    case True
    with 1 have "k + 1 \<le> fst (skip_malformed lines (k + 1) out)" by blast
    with True show ?thesis by (subst skip_malformed.simps) auto
  next
    case False
    then show ?thesis by (subst skip_malformed.simps) auto
  qed
qed

lemma loop_body_idx: "idx s < idx (loop_body uni lines s)"
proof (cases "malformed (lines ! idx s)")
  case True
  obtain k out where ko: "skip_malformed lines (idx s + 1)
      (new_lines s @ [replacement (track_function uni (current_function s) (lines ! idx s))])
      = (k, out)"
    by (cases "skip_malformed lines (idx s + 1)
      (new_lines s @ [replacement (track_function uni (current_function s) (lines ! idx s))])")
  from skip_malformed_ge [of "idx s + 1" lines] ko have "idx s + 1 \<le> k"
    by (metis fst_conv)
  with True ko show ?thesis by (simp add: loop_body_def Let_def)
next
  case False
  then show ?thesis by (simp add: loop_body_def Let_def)
qed

function main_loop :: "(nat \<Rightarrow> bool) \<Rightarrow> str list \<Rightarrow> scan_state \<Rightarrow> scan_state" where
  "main_loop uni lines s =
     (if idx s < length lines then main_loop uni lines (loop_body uni lines s) else s)"
  by pat_completeness auto
termination
proof (relation "measure (\<lambda>(uni, lines, s). length lines - idx s)")
  show "wf (measure (\<lambda>(uni, lines, s). length lines - idx s))" by simp
next
  fix uni :: "nat \<Rightarrow> bool" and lines :: "str list" and s :: scan_state
  assume "idx s < length lines"
  with loop_body_idx [of s uni lines]
  show "((uni, lines, loop_body uni lines s), (uni, lines, s))
      \<in> measure (\<lambda>(uni, lines, s). length lines - idx s)"
    by simp
qed

declare main_loop.simps [simp del]

text \<open>The states in which the test of the outer loop succeeds, in the order of the run.\<close>

function scan_states :: "(nat \<Rightarrow> bool) \<Rightarrow> str list \<Rightarrow> scan_state \<Rightarrow> scan_state list" where
  "scan_states uni lines s =
     (if idx s < length lines then s # scan_states uni lines (loop_body uni lines s) else [])"
  by pat_completeness auto
termination
proof (relation "measure (\<lambda>(uni, lines, s). length lines - idx s)")
  show "wf (measure (\<lambda>(uni, lines, s). length lines - idx s))" by simp
next
  fix uni :: "nat \<Rightarrow> bool" and lines :: "str list" and s :: scan_state
  assume "idx s < length lines"
  with loop_body_idx [of s uni lines]
  show "((uni, lines, loop_body uni lines s), (uni, lines, s))
      \<in> measure (\<lambda>(uni, lines, s). length lines - idx s)"
    by simp
qed

declare scan_states.simps [simp del]

text \<open>The pass on the lines, and on the text of the file.\<close>

definition fix_lines :: "(nat \<Rightarrow> bool) \<Rightarrow> str list \<Rightarrow> str list" where
  "fix_lines uni lines = new_lines (main_loop uni lines initial_state)"

text \<open>
  \<^verbatim>\<open>content.split('\n')\<close> and \<^verbatim>\<open>'\n'.join(new_lines)\<close>; the line feed is code point 10.
  The result of \<open>split_nl\<close> is never empty, so the second case of its \<open>case\<close> is
  never taken.
\<close>

fun split_nl :: "str \<Rightarrow> str list" where
  "split_nl [] = [[]]"
| "split_nl (c # cs) =
     (if c = 10 then [] # split_nl cs
      else (case split_nl cs of l # ls \<Rightarrow> (c # l) # ls | [] \<Rightarrow> [[c]]))"

fun join_nl :: "str list \<Rightarrow> str" where
  "join_nl [] = []"
| "join_nl [l] = l"
| "join_nl (l # m # ls) = l @ 10 # join_nl (m # ls)"

definition fix_text :: "(nat \<Rightarrow> bool) \<Rightarrow> str \<Rightarrow> str" where
  "fix_text uni content = join_nl (fix_lines uni (split_nl content))"

subsection \<open>The scan as a recursion on the remaining lines\<close>

text \<open>
  The same pass, written on the lines still to be read: \<open>scan_list\<close> is the outer loop
  and \<open>skip_list\<close> the inner one. The proofs below go through it.
\<close>

fun scan_list :: "(nat \<Rightarrow> bool) \<Rightarrow> str option \<Rightarrow> str list \<Rightarrow> str list"
  and skip_list :: "(nat \<Rightarrow> bool) \<Rightarrow> str option \<Rightarrow> str list \<Rightarrow> str list" where
  "scan_list uni cf [] = []"
| "scan_list uni cf (l # ls) =
     (if malformed l then replacement (track_function uni cf l) # skip_list uni (track_function uni cf l) ls
      else l # scan_list uni (track_function uni cf l) ls)"
| "skip_list uni cf [] = []"
| "skip_list uni cf [l] = []"
| "skip_list uni cf (l # m # ls) =
     (if closing l \<and> closing m then closing_line # scan_list uni cf ls
      else skip_list uni cf (m # ls))"

subsection \<open>Rounds, regions and names\<close>

text \<open>
  The round of the loop that starts in state \<open>t\<close> consumes the lines from \<open>idx t\<close> up
  to, not including, the index of the next state, and appends \<open>round_output\<close> to the
  output.
\<close>

definition round_output :: "(nat \<Rightarrow> bool) \<Rightarrow> str list \<Rightarrow> scan_state \<Rightarrow> str list" where
  "round_output uni lines t = drop (length (new_lines t)) (new_lines (loop_body uni lines t))"

text \<open>
  The malformed region of a round at a malformed line is the range of lines the round
  consumes: from the malformed line through the second of the two closing lines, or
  to the end of the input when they never come.
\<close>

definition in_region :: "(nat \<Rightarrow> bool) \<Rightarrow> str list \<Rightarrow> nat \<Rightarrow> bool" where
  "in_region uni lines k =
     (\<exists>t\<in>set (scan_states uni lines initial_state).
        malformed (lines ! idx t) \<and> idx t \<le> k \<and> k < idx (loop_body uni lines t))"

text \<open>
  Line \<open>k\<close> is followed by two consecutive closing lines: some \<open>j\<close> after \<open>k\<close> with
  \<open>j + 1\<close> still in the input has closing lines at \<open>j\<close> and \<open>j + 1\<close>.
\<close>

definition pair_after :: "str list \<Rightarrow> nat \<Rightarrow> bool" where
  "pair_after lines k =
     (\<exists>j\<in>set [Suc k..<length lines - 1]. closing (lines ! j) \<and> closing (lines ! Suc j))"

text \<open>The name kept by the scan is made of word characters.\<close>

definition word_name :: "(nat \<Rightarrow> bool) \<Rightarrow> str option \<Rightarrow> bool" where
  "word_name uni cf = (case cf of None \<Rightarrow> True | Some n \<Rightarrow> list_all (is_word uni) n)"

subsection \<open>The inputs of the examples\<close>

text \<open>The example of the specification, its expected output there, and the output of the script.\<close>

definition example_input :: "str list" where
  "example_input =
    [lit ''export async function getItem(req, res) {'',
     lit ''  try {'',
     lit ''    doWork();'',
     lit ''  } catch (error) {'',
     lit ''    handleControllerError(error, res, ','',
     lit ''    extraJunk'',
     lit ''  }'',
     lit ''  }'',
     lit ''}'']"

definition example_expected :: "str list" where
  "example_expected =
    [lit ''export async function getItem(req, res) {'',
     lit ''  try {'',
     lit ''    doWork();'',
     lit ''  } catch (error) {'',
     lit ''    handleControllerError(error, res, 'Controller.getItem');'',
     lit ''  }'',
     lit ''}'']"

definition example_output :: "str list" where
  "example_output =
    [lit ''export async function getItem(req, res) {'',
     lit ''  try {'',
     lit ''    doWork();'',
     lit ''  } catch (error) {'',
     lit ''    handleControllerError(error, res, 'AiPermissionController.getItem');'',
     lit ''  }'',
     lit ''}'']"

text \<open>Small inputs on which the theorems below are tried.\<close>

definition indent_lines :: "str list" where
  "indent_lines =
    [lit ''handleControllerError(error, res, ','',
     lit ''        }'',
     [9, 125, 32, 32]]"

definition truncated_lines :: "str list" where
  "truncated_lines =
    [lit ''export async function getItem(req, res) {'',
     lit ''    handleControllerError(error, res, ','',
     lit ''  }'',
     lit ''const x = 1;'',
     lit ''}'']"

definition two_folds_lines :: "str list" where
  "two_folds_lines =
    [lit ''    handleControllerError(error, res, ','',
     lit ''  }'',
     lit ''  }'',
     lit ''const x = 1;'',
     lit ''    handleControllerError(error, res, ','',
     lit ''  }'',
     lit ''}'']"

definition attribution_lines :: "str list" where
  "attribution_lines =
    [lit ''export async function Foo(req, res) {'',
     lit ''  } catch (error) {'',
     lit ''    handleControllerError(error, res, ','']"

definition swallowed_header_lines :: "str list" where
  "swallowed_header_lines =
    [lit ''export async function A(req, res) {'',
     lit ''    handleControllerError(error, res, ','',
     lit ''export async function Foo(req, res) {'',
     lit ''  }'',
     lit ''  }'',
     lit ''    handleControllerError(error, res, ','']"

definition rounds_lines :: "str list" where
  "rounds_lines =
    [lit ''export async function getItem(req, res) {'',
     lit ''    handleControllerError(error, res, ','',
     lit ''  }'',
     lit ''  }'',
     lit ''}'',
     lit ''    handleControllerError(error, res, ','',
     lit ''  }'']"

definition outside_lines :: "str list" where
  "outside_lines =
    [lit ''  } catch (error) {'',
     lit ''    handleControllerError(error, res, ','',
     lit ''    extraJunk'',
     lit ''  }'',
     lit ''    }'',
     lit ''}'',
     lit '''']"

definition idempotence_text :: str where
  "idempotence_text = lit ''handleControllerError(error, res, ',\<newline>}\<newline>}\<newline>x''"

definition idempotence_lines :: "str list" where
  "idempotence_lines =
    [lit ''export async function list(req, res) {'',
     lit ''    handleControllerError(error, res, ','',
     lit ''}'',
     lit ''}'']"

lemma skip_malformed_end:
  "\<not> k < length lines \<Longrightarrow> skip_malformed lines k out = (k, out)"
  by (subst skip_malformed.simps) simp

lemma skip_malformed_found:
  "closing (lines ! k) \<Longrightarrow> Suc k < length lines \<Longrightarrow> closing (lines ! Suc k) \<Longrightarrow>
   skip_malformed lines k out = (Suc k, out @ [closing_line])"
  by (subst skip_malformed.simps) simp

lemma skip_malformed_next:
  "k < length lines \<Longrightarrow>
   \<not> (closing (lines ! k) \<and> Suc k < length lines \<and> closing (lines ! Suc k)) \<Longrightarrow>
   skip_malformed lines k out = skip_malformed lines (Suc k) out"
  by (subst skip_malformed.simps) auto

lemma main_loop_end: "\<not> idx s < length lines \<Longrightarrow> main_loop uni lines s = s"
  by (subst main_loop.simps) simp

lemma main_loop_step:
  "idx s < length lines \<Longrightarrow> main_loop uni lines s = main_loop uni lines (loop_body uni lines s)"
  by (subst main_loop.simps) simp

lemma scan_states_end: "\<not> idx s < length lines \<Longrightarrow> scan_states uni lines s = []"
  by (subst scan_states.simps) simp

lemma scan_states_step:
  "idx s < length lines \<Longrightarrow>
   scan_states uni lines s = s # scan_states uni lines (loop_body uni lines s)"
  by (subst scan_states.simps) simp

lemma skip_list_next:
  "\<not> (closing l \<and> ls \<noteq> [] \<and> closing (hd ls)) \<Longrightarrow> skip_list uni cf (l # ls) = skip_list uni cf ls"
  by (cases ls) auto

lemma skip_malformed_list:
  "snd (skip_malformed lines k out) @
     scan_list uni cf (drop (Suc (fst (skip_malformed lines k out))) lines) =
   out @ skip_list uni cf (drop k lines)"
proof (induction lines k out rule: skip_malformed.induct)
  case (1 lines k out)
  show ?case
  proof (cases "k < length lines")
    case False
    then show ?thesis by (simp add: skip_malformed_end)
  next
    case kl: True
    then have d: "drop k lines = lines ! k # drop (Suc k) lines"
      by (simp add: Cons_nth_drop_Suc)
    show ?thesis
    proof (cases "closing (lines ! k) \<and> Suc k < length lines \<and> closing (lines ! Suc k)")
      case True
      then have d': "drop (Suc k) lines = lines ! Suc k # drop (Suc (Suc k)) lines"
        by (simp add: Cons_nth_drop_Suc)
      from True show ?thesis
        by (simp add: skip_malformed_found d d')
    next
      case False
      with kl 1 have ih: "snd (skip_malformed lines (Suc k) out) @
          scan_list uni cf (drop (Suc (fst (skip_malformed lines (Suc k) out))) lines) =
          out @ skip_list uni cf (drop (Suc k) lines)" by simp
      have "skip_list uni cf (drop k lines) = skip_list uni cf (drop (Suc k) lines)"
        unfolding d using False
        by (intro skip_list_next) (auto simp: hd_drop_conv_nth)
      with ih False kl show ?thesis
        by (simp add: skip_malformed_next)
    qed
  qed
qed

lemma main_loop_list:
  "new_lines (main_loop uni lines s) =
   new_lines s @ scan_list uni (current_function s) (drop (idx s) lines)"
proof (induction uni lines s rule: main_loop.induct)
  case (1 uni lines s)
  show ?case
  proof (cases "idx s < length lines")
    case False
    then show ?thesis by (subst main_loop.simps) simp
  next
    case True
    let ?b = "loop_body uni lines s"
    from True 1 have ih: "new_lines (main_loop uni lines ?b) =
        new_lines ?b @ scan_list uni (current_function ?b) (drop (idx ?b) lines)" by blast
    from True have d: "drop (idx s) lines = lines ! idx s # drop (Suc (idx s)) lines"
      by (simp add: Cons_nth_drop_Suc)
    have "new_lines ?b @ scan_list uni (current_function ?b) (drop (idx ?b) lines) =
        new_lines s @ scan_list uni (current_function s) (drop (idx s) lines)"
    proof (cases "malformed (lines ! idx s)")
      case False
      then show ?thesis by (simp add: loop_body_def Let_def d)
    next
      case True
      let ?cf = "track_function uni (current_function s) (lines ! idx s)"
      let ?r = "skip_malformed lines (idx s + 1) (new_lines s @ [replacement ?cf])"
      from True have b: "?b = \<lparr>idx = fst ?r + 1, new_lines = snd ?r, current_function = ?cf\<rparr>"
        by (simp add: loop_body_def Let_def split: prod.splits)
      show ?thesis
        using skip_malformed_list [of lines "idx s + 1" "new_lines s @ [replacement ?cf]" uni ?cf] True
        by (simp add: b d)
    qed
    with ih True show ?thesis by (subst main_loop.simps) simp
  qed
qed

lemma fix_lines_list: "fix_lines uni lines = scan_list uni None lines"
  by (simp add: fix_lines_def main_loop_list initial_state_def)

lemma scan_states_idx:
  "t \<in> set (scan_states uni lines s) \<Longrightarrow> idx s \<le> idx t \<and> idx t < length lines"
proof (induction uni lines s rule: scan_states.induct)
  case (1 uni lines s)
  show ?case
  proof (cases "idx s < length lines")
    case False
    with 1(2) show ?thesis by (subst (asm) scan_states.simps) simp
  next
    case True
    with 1(2) have "t = s \<or> t \<in> set (scan_states uni lines (loop_body uni lines s))"
      by (subst (asm) scan_states.simps) simp
    then show ?thesis
    proof
      assume "t = s" with True show ?thesis by simp
    next
      assume "t \<in> set (scan_states uni lines (loop_body uni lines s))"
      with 1(1) True have "idx (loop_body uni lines s) \<le> idx t \<and> idx t < length lines" by blast
      with loop_body_idx [of s uni lines] show ?thesis by simp
    qed
  qed
qed

lemma main_loop_scan_states:
  "t \<in> set (scan_states uni lines s) \<Longrightarrow> main_loop uni lines t = main_loop uni lines s"
proof (induction uni lines s rule: scan_states.induct)
  case (1 uni lines s)
  show ?case
  proof (cases "idx s < length lines")
    case False
    with 1(2) show ?thesis by (subst (asm) scan_states.simps) simp
  next
    case True
    with 1(2) have "t = s \<or> t \<in> set (scan_states uni lines (loop_body uni lines s))"
      by (subst (asm) scan_states.simps) simp
    then show ?thesis
    proof
      assume "t = s" then show ?thesis by simp
    next
      assume "t \<in> set (scan_states uni lines (loop_body uni lines s))"
      with 1(1) True have "main_loop uni lines t = main_loop uni lines (loop_body uni lines s)"
        by blast
      with True show ?thesis by (subst (2) main_loop.simps) simp
    qed
  qed
qed

lemma fix_lines_at:
  "t \<in> set (scan_states uni lines initial_state) \<Longrightarrow>
   fix_lines uni lines = new_lines t @ scan_list uni (current_function t) (drop (idx t) lines)"
  using main_loop_scan_states [of t uni lines initial_state] main_loop_list [of uni lines t]
  by (simp add: fix_lines_def)

subsection \<open>The example of the specification\<close>

lemmas eval_defs =
  fix_lines_def initial_state_def main_loop.simps loop_body_def skip_malformed.simps
  malformed_def closing_def strip_def is_space_def lit_def track_function_def func_match_def
  is_word_def replacement_def fmt_def closing_line_def sublist_Cons_right Let_def

text \<open>
  C1 (as the code has it): on the nine example lines the pass writes seven lines, the
  four lines before the broken call unchanged, the completed call, one closing brace
  and the last line; the message of the completed call is
  \<^verbatim>\<open>AiPermissionController.getItem\<close>, with the prefix the script has.
\<close>

theorem example_scenario_output: "fix_lines uni example_input = example_output"
  by (simp add: example_input_def example_output_def eval_defs)

text \<open>
  C1 (as the specification states it) fails: the expected output of the specification
  has the message \<^verbatim>\<open>Controller.getItem\<close>, which the script does not write.
\<close>

theorem example_scenario_counterexample:
  "fix_lines ascii_only example_input \<noteq> example_expected"
  by (simp add: example_input_def example_expected_def eval_defs)

subsection \<open>What the inner loop returns\<close>

lemma skip_malformed_first:
  assumes "k \<le> j" and "Suc j < length lines" and "closing (lines ! j)"
    and "closing (lines ! Suc j)"
    and "\<forall>m. k \<le> m \<and> m < j \<longrightarrow> \<not> (closing (lines ! m) \<and> closing (lines ! Suc m))"
  shows "skip_malformed lines k out = (Suc j, out @ [closing_line])"
  using assms(1,5)
proof (induction rule: inc_induct)
  case base
  from assms(2-4) show ?case by (simp add: skip_malformed_found)
next
  case (step n)
  then have "skip_malformed lines (Suc n) out = (Suc j, out @ [closing_line])" by simp
  moreover from step assms(2) have "n < length lines" by simp
  moreover from step have "\<not> (closing (lines ! n) \<and> closing (lines ! Suc n))" by simp
  ultimately show ?case by (simp add: skip_malformed_next)
qed

lemma skip_malformed_none:
  assumes "k \<le> length lines"
    and "\<forall>m. k \<le> m \<and> Suc m < length lines \<longrightarrow>
           \<not> (closing (lines ! m) \<and> closing (lines ! Suc m))"
  shows "skip_malformed lines k out = (length lines, out)"
  using assms
proof (induction rule: inc_induct)
  case base
  show ?case by (simp add: skip_malformed_end)
next
  case (step n)
  then have "skip_malformed lines (Suc n) out = (length lines, out)" by simp
  moreover from step have "\<not> (closing (lines ! n) \<and> Suc n < length lines \<and> closing (lines ! Suc n))"
    by auto
  ultimately show ?case using step(2) by (simp add: skip_malformed_next)
qed

lemma first_pair:
  assumes "k \<le> j" and "closing (lines ! j)" and "closing (lines ! Suc j)"
  obtains j0 where "k \<le> j0" and "j0 \<le> j" and "closing (lines ! j0)" and "closing (lines ! Suc j0)"
    and "\<forall>m. k \<le> m \<and> m < j0 \<longrightarrow> \<not> (closing (lines ! m) \<and> closing (lines ! Suc m))"
proof -
  let ?P = "\<lambda>j. k \<le> j \<and> closing (lines ! j) \<and> closing (lines ! Suc j)"
  let ?j0 = "LEAST j. ?P j"
  from assms have P: "?P j" by simp
  then have "?P ?j0" by (rule LeastI)
  moreover from P have "?j0 \<le> j" by (rule Least_le)
  moreover have "\<forall>m. k \<le> m \<and> m < ?j0 \<longrightarrow> \<not> (closing (lines ! m) \<and> closing (lines ! Suc m))"
    using not_less_Least [of _ ?P] by blast
  ultimately show thesis using that by blast
qed

lemma loop_body_plain:
  "\<not> malformed (lines ! idx s) \<Longrightarrow>
   loop_body uni lines s =
     \<lparr>idx = idx s + 1, new_lines = new_lines s @ [lines ! idx s],
      current_function = track_function uni (current_function s) (lines ! idx s)\<rparr>"
  by (simp add: loop_body_def Let_def)

lemma loop_body_folded:
  assumes "malformed (lines ! idx s)"
    and "idx s < j" and "Suc j < length lines" and "closing (lines ! j)"
    and "closing (lines ! Suc j)"
    and "\<forall>m. idx s < m \<and> m < j \<longrightarrow> \<not> (closing (lines ! m) \<and> closing (lines ! Suc m))"
  shows "loop_body uni lines s =
     \<lparr>idx = j + 2,
      new_lines = new_lines s @
        [replacement (track_function uni (current_function s) (lines ! idx s)), closing_line],
      current_function = track_function uni (current_function s) (lines ! idx s)\<rparr>"
proof -
  have "skip_malformed lines (idx s + 1)
      (new_lines s @ [replacement (track_function uni (current_function s) (lines ! idx s))]) =
    (Suc j, (new_lines s @
      [replacement (track_function uni (current_function s) (lines ! idx s))]) @ [closing_line])"
    using assms by (intro skip_malformed_first) auto
  with assms(1) show ?thesis by (simp add: loop_body_def Let_def)
qed

lemma loop_body_truncated:
  assumes "malformed (lines ! idx s)" and "idx s < length lines"
    and "\<forall>m. idx s < m \<and> Suc m < length lines \<longrightarrow>
           \<not> (closing (lines ! m) \<and> closing (lines ! Suc m))"
  shows "loop_body uni lines s =
     \<lparr>idx = length lines + 1,
      new_lines = new_lines s @
        [replacement (track_function uni (current_function s) (lines ! idx s))],
      current_function = track_function uni (current_function s) (lines ! idx s)\<rparr>"
proof -
  have "skip_malformed lines (idx s + 1)
      (new_lines s @ [replacement (track_function uni (current_function s) (lines ! idx s))]) =
    (length lines, new_lines s @
      [replacement (track_function uni (current_function s) (lines ! idx s))])"
    using assms by (intro skip_malformed_none) auto
  with assms(1) show ?thesis by (simp add: loop_body_def Let_def)
qed

subsection \<open>Termination\<close>

lemma scan_states_length: "length (scan_states uni lines s) \<le> length lines - idx s"
proof (induction uni lines s rule: scan_states.induct)
  case (1 uni lines s)
  show ?case
  proof (cases "idx s < length lines")
    case False
    then show ?thesis by (simp add: scan_states_end)
  next
    case True
    with 1 have "length (scan_states uni lines (loop_body uni lines s))
        \<le> length lines - idx (loop_body uni lines s)" by blast
    with True loop_body_idx [of s uni lines] show ?thesis
      by (simp add: scan_states_step)
  qed
qed

lemma main_loop_rounds:
  "main_loop uni lines s = (loop_body uni lines ^^ length (scan_states uni lines s)) s"
proof (induction uni lines s rule: scan_states.induct)
  case (1 uni lines s)
  show ?case
  proof (cases "idx s < length lines")
    case False
    then show ?thesis by (simp add: scan_states_end main_loop_end)
  next
    case True
    with 1 have "main_loop uni lines (loop_body uni lines s) =
        (loop_body uni lines ^^ length (scan_states uni lines (loop_body uni lines s)))
          (loop_body uni lines s)" by blast
    with True show ?thesis
      by (simp add: scan_states_step main_loop_step funpow_swap1)
  qed
qed

lemma main_loop_exit: "length lines \<le> idx (main_loop uni lines s)"
proof (induction uni lines s rule: main_loop.induct)
  case (1 uni lines s)
  then show ?case
    by (cases "idx s < length lines") (simp_all add: main_loop_step main_loop_end)
qed

text \<open>
  C10: the pass terminates on every list of lines. Every round of the outer loop ends
  with a larger index, also when the inner loop has run; the loop is left after at most
  \<open>length lines - idx s\<close> rounds, the result of \<open>main_loop\<close> is the state after that
  many rounds, and there the loop test fails. The output is the field \<open>new_lines\<close> of
  that state.
\<close>

theorem scan_terminates:
  "idx s < idx (loop_body uni lines s) \<and>
   length (scan_states uni lines s) \<le> length lines - idx s \<and>
   main_loop uni lines s = (loop_body uni lines ^^ length (scan_states uni lines s)) s \<and>
   length lines \<le> idx (main_loop uni lines s) \<and>
   fix_lines uni lines =
     new_lines ((loop_body uni lines ^^ length (scan_states uni lines initial_state))
       initial_state)"
  using loop_body_idx [of s uni lines] scan_states_length [of uni lines s]
    main_loop_rounds [of uni lines s] main_loop_exit [of lines uni s]
    main_loop_rounds [of uni lines initial_state]
  by (simp add: fix_lines_def)

subsection \<open>The synthesized lines\<close>

lemma replacement_indent:
  "take 4 (replacement cf) = lit ''    '' \<and> replacement cf ! 4 = 104"
  by (simp add: replacement_def lit_def)

text \<open>
  C9: a completed repair (a malformed line at the index of the scan, and two
  consecutive closing lines somewhere after it) appends exactly two lines to the
  output, whatever the lines read are: the replacement line, which begins with four
  spaces followed by the letter h of the call, and the line of two spaces and a brace.
\<close>

theorem synthesized_indentation:
  assumes "malformed (lines ! idx s)"
    and "idx s < j" and "Suc j < length lines"
    and "closing (lines ! j)" and "closing (lines ! Suc j)"
  shows "new_lines (loop_body uni lines s) =
      new_lines s @
        [replacement (track_function uni (current_function s) (lines ! idx s)), lit ''  }''] \<and>
    take 4 (replacement (track_function uni (current_function s) (lines ! idx s))) = lit ''    '' \<and>
    \<not> is_space (replacement (track_function uni (current_function s) (lines ! idx s)) ! 4)"
proof -
  from assms(2,4,5) obtain j0 where j0: "Suc (idx s) \<le> j0" "j0 \<le> j" "closing (lines ! j0)"
    "closing (lines ! Suc j0)"
    "\<forall>m. Suc (idx s) \<le> m \<and> m < j0 \<longrightarrow> \<not> (closing (lines ! m) \<and> closing (lines ! Suc m))"
    using first_pair [of "Suc (idx s)" j lines] by (metis Suc_leI)
  with assms(1,3) have "loop_body uni lines s =
     \<lparr>idx = j0 + 2,
      new_lines = new_lines s @
        [replacement (track_function uni (current_function s) (lines ! idx s)), closing_line],
      current_function = track_function uni (current_function s) (lines ! idx s)\<rparr>"
    by (intro loop_body_folded) auto
  then show ?thesis
    by (simp add: closing_line_def replacement_indent is_space_def)
qed

theorem synthesized_indentation_witness:
  "malformed (indent_lines ! idx initial_state) \<and>
   closing (indent_lines ! 1) \<and> closing (indent_lines ! Suc 1) \<and>
   new_lines (loop_body ascii_only indent_lines initial_state) =
     new_lines initial_state @
     [lit ''    handleControllerError(error, res, 'AiPermissionController.None');'',
      lit ''  }'']"
proof -
  have m: "malformed (indent_lines ! idx initial_state)"
    by (simp add: indent_lines_def eval_defs)
  have c1: "closing (indent_lines ! 1)" and c2: "closing (indent_lines ! Suc 1)"
    by (simp_all add: indent_lines_def eval_defs)
  have l: "idx initial_state < 1" "Suc 1 < length indent_lines"
    by (simp_all add: indent_lines_def initial_state_def)
  have r: "replacement (track_function ascii_only (current_function initial_state)
        (indent_lines ! idx initial_state)) =
      lit ''    handleControllerError(error, res, 'AiPermissionController.None');''"
    by (simp add: indent_lines_def eval_defs)
  from synthesized_indentation [OF m l c1 c2, of ascii_only]
  have "new_lines (loop_body ascii_only indent_lines initial_state) =
      new_lines initial_state @
      [lit ''    handleControllerError(error, res, 'AiPermissionController.None');'',
       lit ''  }'']"
    unfolding r by (rule conjunct1)
  with m c1 c2 show ?thesis by blast
qed

subsection \<open>Lines before the first malformed line\<close>

lemma scan_list_plain:
  "\<forall>l\<in>set pre. \<not> malformed l \<Longrightarrow>
   scan_list uni cf (pre @ ls) = pre @ scan_list uni (foldl (track_function uni) cf pre) ls"
  by (induction pre arbitrary: cf) simp_all




subsection \<open>The states of the scan\<close>

lemma loop_body_current_function:
  "current_function (loop_body uni lines s) =
   track_function uni (current_function s) (lines ! idx s)"
  by (simp add: loop_body_def Let_def split: prod.splits)

lemma scan_states_cases:
  assumes "t \<in> set (scan_states uni lines s)"
  shows "idx s < length lines \<and>
    (t = s \<or> t \<in> set (scan_states uni lines (loop_body uni lines s)))"
proof (cases "idx s < length lines")
  case True
  with assms show ?thesis by (simp add: scan_states_step)
next
  case False
  with assms show ?thesis by (simp add: scan_states_end)
qed

lemma skip_malformed_take:
  "fst (skip_malformed lines k out) < n \<Longrightarrow> n \<le> length lines \<Longrightarrow>
   skip_malformed (take n lines) k out = skip_malformed lines k out"
proof (induction lines k out rule: skip_malformed.induct)
  case (1 lines k out)
  from skip_malformed_ge [of k lines out] 1(2) have kn: "k < n" by simp
  with 1(3) have kl: "k < length lines" by simp
  show ?case
  proof (cases "closing (lines ! k) \<and> Suc k < length lines \<and> closing (lines ! Suc k)")
    case True
    then have r: "skip_malformed lines k out = (Suc k, out @ [closing_line])"
      by (simp add: skip_malformed_found)
    with 1(2) have "Suc k < n" by simp
    with True kn 1(3) have "skip_malformed (take n lines) k out = (Suc k, out @ [closing_line])"
      by (intro skip_malformed_found) simp_all
    with r show ?thesis by simp
  next
    case False
    with kl have r: "skip_malformed lines k out = skip_malformed lines (Suc k) out"
      by (simp add: skip_malformed_next)
    with 1 False kl have ih: "skip_malformed (take n lines) (Suc k) out =
        skip_malformed lines (Suc k) out" by simp
    have "\<not> (closing (take n lines ! k) \<and> Suc k < length (take n lines) \<and>
        closing (take n lines ! Suc k))"
      using False kn 1(3) by auto
    moreover from kn 1(3) have "k < length (take n lines)" by simp
    ultimately have "skip_malformed (take n lines) k out =
        skip_malformed (take n lines) (Suc k) out"
      by (rule skip_malformed_next [rotated])
    with ih r show ?thesis by simp
  qed
qed

lemma loop_body_take:
  assumes "idx (loop_body uni lines s) \<le> n" and "n \<le> length lines"
  shows "loop_body uni (take n lines) s = loop_body uni lines s"
proof -
  from loop_body_idx [of s uni lines] assms(1) have sn: "idx s < n" by simp
  then have nth: "take n lines ! idx s = lines ! idx s" by simp
  show ?thesis
  proof (cases "malformed (lines ! idx s)")
    case False
    then show ?thesis by (simp add: loop_body_def Let_def nth)
  next
    case True
    let ?out = "new_lines s @
      [replacement (track_function uni (current_function s) (lines ! idx s))]"
    from True assms(1) have "fst (skip_malformed lines (idx s + 1) ?out) < n"
      by (simp add: loop_body_def Let_def split: prod.splits)
    then have "skip_malformed (take n lines) (idx s + 1) ?out =
        skip_malformed lines (idx s + 1) ?out"
      using assms(2) by (rule skip_malformed_take)
    with True show ?thesis by (simp add: loop_body_def Let_def nth)
  qed
qed

text \<open>
  A state of the scan depends on the lines before its index only: the pass on these
  lines alone ends in it.
\<close>

lemma main_loop_take:
  "t \<in> set (scan_states uni lines s) \<Longrightarrow> main_loop uni (take (idx t) lines) s = t"
proof (induction uni lines s rule: scan_states.induct)
  case (1 uni lines s)
  from scan_states_cases [OF 1(2)] have sl: "idx s < length lines"
    and c: "t = s \<or> t \<in> set (scan_states uni lines (loop_body uni lines s))" by simp_all
  from c show ?case
  proof
    assume "t = s"
    with sl show ?thesis by (simp add: main_loop_end)
  next
    assume t: "t \<in> set (scan_states uni lines (loop_body uni lines s))"
    with 1(1) sl have ih: "main_loop uni (take (idx t) lines) (loop_body uni lines s) = t"
      by blast
    from scan_states_idx [OF t] have b: "idx (loop_body uni lines s) \<le> idx t"
      and tl: "idx t < length lines" by simp_all
    from b tl have "loop_body uni (take (idx t) lines) s = loop_body uni lines s"
      by (intro loop_body_take) simp_all
    moreover from loop_body_idx [of s uni lines] b tl
    have "idx s < length (take (idx t) lines)" by simp
    ultimately show ?thesis using ih by (simp add: main_loop_step)
  qed
qed

lemma new_lines_at:
  "t \<in> set (scan_states uni lines initial_state) \<Longrightarrow>
   new_lines t = fix_lines uni (take (idx t) lines)"
  by (simp add: fix_lines_def main_loop_take)

lemma scan_list_all_plain: "\<forall>l\<in>set ls. \<not> malformed l \<Longrightarrow> scan_list uni cf ls = ls"
  using scan_list_plain [of ls uni cf "[]"] by simp

lemma main_loop_resume:
  "new_lines (main_loop uni lines s) =
   new_lines s @ new_lines (main_loop uni lines (s\<lparr>new_lines := []\<rparr>))"
  by (simp add: main_loop_list)

subsection \<open>A round that does not find the two closing lines\<close>

text \<open>
  When the scan is at a malformed line after which no two consecutive lines are closing
  lines, the output is the output for the lines before the malformed line followed by
  the replacement line.
\<close>

lemma truncated_at:
  assumes "t \<in> set (scan_states uni lines initial_state)"
    and "malformed (lines ! idx t)"
    and "\<forall>j. idx t < j \<and> Suc j < length lines \<longrightarrow>
           \<not> (closing (lines ! j) \<and> closing (lines ! Suc j))"
  shows "fix_lines uni lines =
      new_lines t @ [replacement (track_function uni (current_function t) (lines ! idx t))] \<and>
    new_lines t = fix_lines uni (take (idx t) lines)"
proof -
  from scan_states_idx [OF assms(1)] have tl: "idx t < length lines" by simp
  from assms(2) tl assms(3) have b: "loop_body uni lines t =
     \<lparr>idx = length lines + 1,
      new_lines = new_lines t @
        [replacement (track_function uni (current_function t) (lines ! idx t))],
      current_function = track_function uni (current_function t) (lines ! idx t)\<rparr>"
    by (rule loop_body_truncated)
  have "fix_lines uni lines = new_lines (main_loop uni lines t)"
    using main_loop_scan_states [OF assms(1)] by (simp add: fix_lines_def)
  also have "\<dots> = new_lines (main_loop uni lines (loop_body uni lines t))"
    using tl by (simp add: main_loop_step)
  also have "\<dots> = new_lines t @
      [replacement (track_function uni (current_function t) (lines ! idx t))]"
    by (simp add: b main_loop_end)
  finally show ?thesis using new_lines_at [OF assms(1)] by simp
qed

subsection \<open>A round that finds the two closing lines\<close>

text \<open>
  When the scan is at a malformed line and \<open>j\<close>, \<open>j + 1\<close> are the first two consecutive
  closing lines after it, the round appends the replacement line and one closing line
  and leaves the index at \<open>j + 2\<close>.
\<close>

lemma folded_at:
  assumes "t \<in> set (scan_states uni lines initial_state)"
    and "malformed (lines ! idx t)"
    and "idx t < j" and "Suc j < length lines"
    and "closing (lines ! j)" and "closing (lines ! Suc j)"
    and "\<forall>m. idx t < m \<and> m < j \<longrightarrow> \<not> (closing (lines ! m) \<and> closing (lines ! Suc m))"
  shows "loop_body uni lines t =
      \<lparr>idx = j + 2,
       new_lines = new_lines t @
         [replacement (track_function uni (current_function t) (lines ! idx t)), closing_line],
       current_function = track_function uni (current_function t) (lines ! idx t)\<rparr> \<and>
    fix_lines uni lines =
      fix_lines uni (take (idx t) lines) @
      [replacement (track_function uni (current_function t) (lines ! idx t)), closing_line] @
      new_lines (main_loop uni lines
        \<lparr>idx = j + 2, new_lines = [],
         current_function = track_function uni (current_function t) (lines ! idx t)\<rparr>) \<and>
    ((\<forall>m < length lines. malformed (lines ! m) \<longrightarrow> idx t \<le> m \<and> m < j) \<longrightarrow>
      fix_lines uni lines =
        take (idx t) lines @
        [replacement (track_function uni (current_function t) (lines ! idx t)), closing_line] @
        drop (j + 2) lines)"
proof -
  let ?cf = "track_function uni (current_function t) (lines ! idx t)"
  let ?r = "\<lparr>idx = j + 2, new_lines = [], current_function = ?cf\<rparr>"
  from scan_states_idx [OF assms(1)] have tl: "idx t < length lines" by simp
  have b: "loop_body uni lines t =
      \<lparr>idx = j + 2, new_lines = new_lines t @ [replacement ?cf, closing_line],
       current_function = ?cf\<rparr>"
    using assms(2-7) by (rule loop_body_folded)
  have "fix_lines uni lines = new_lines (main_loop uni lines t)"
    using main_loop_scan_states [OF assms(1)] by (simp add: fix_lines_def)
  also have "\<dots> = new_lines (main_loop uni lines (loop_body uni lines t))"
    using tl by (simp add: main_loop_step)
  also have "\<dots> = (new_lines t @ [replacement ?cf, closing_line]) @
      new_lines (main_loop uni lines ?r)"
    unfolding b by (subst main_loop_resume) simp
  finally have whole: "fix_lines uni lines =
      fix_lines uni (take (idx t) lines) @ [replacement ?cf, closing_line] @
      new_lines (main_loop uni lines ?r)"
    using new_lines_at [OF assms(1)] by simp
  have single: "fix_lines uni lines =
      take (idx t) lines @ [replacement ?cf, closing_line] @ drop (j + 2) lines"
    if only: "\<forall>m < length lines. malformed (lines ! m) \<longrightarrow> idx t \<le> m \<and> m < j"
  proof -
    have "\<forall>l\<in>set (take (idx t) lines). \<not> malformed l"
    proof
      fix l assume "l \<in> set (take (idx t) lines)"
      then obtain m where "m < idx t" "m < length lines" "l = lines ! m"
        by (auto simp: in_set_conv_nth)
      with only show "\<not> malformed l" by auto
    qed
    then have before: "fix_lines uni (take (idx t) lines) = take (idx t) lines"
      by (simp add: fix_lines_list scan_list_all_plain)
    have "\<forall>l\<in>set (drop (j + 2) lines). \<not> malformed l"
    proof
      fix l assume "l \<in> set (drop (j + 2) lines)"
      then obtain m where m: "m < length lines - (j + 2)" "l = lines ! (j + 2 + m)"
        by (auto simp: in_set_conv_nth)
      then have "j + 2 + m < length lines" by simp
      with only have "malformed (lines ! (j + 2 + m)) \<longrightarrow> j + 2 + m < j" by blast
      with m show "\<not> malformed l" by simp
    qed
    then have "new_lines (main_loop uni lines ?r) = drop (j + 2) lines"
      by (simp add: main_loop_list scan_list_all_plain)
    with whole before show ?thesis by simp
  qed
  from b whole single show ?thesis by blast
qed

subsection \<open>The order of the states\<close>

lemma scan_states_split:
  "h \<in> set (scan_states uni lines s) \<Longrightarrow>
   \<exists>pre. scan_states uni lines s = pre @ scan_states uni lines h \<and>
     (\<forall>p\<in>set pre. idx (loop_body uni lines p) \<le> idx h)"
proof (induction uni lines s rule: scan_states.induct)
  case (1 uni lines s)
  from scan_states_cases [OF 1(2)] have sl: "idx s < length lines"
    and c: "h = s \<or> h \<in> set (scan_states uni lines (loop_body uni lines s))" by simp_all
  from c show ?case
  proof
    assume "h = s"
    then have "scan_states uni lines s = [] @ scan_states uni lines h" by simp
    then show ?thesis by (metis empty_iff list.set(1))
  next
    assume h: "h \<in> set (scan_states uni lines (loop_body uni lines s))"
    with 1(1) sl obtain pre where pre:
      "scan_states uni lines (loop_body uni lines s) = pre @ scan_states uni lines h"
      "\<forall>p\<in>set pre. idx (loop_body uni lines p) \<le> idx h" by blast
    from scan_states_idx [OF h] have "idx (loop_body uni lines s) \<le> idx h" by simp
    with pre sl have "scan_states uni lines s = (s # pre) @ scan_states uni lines h \<and>
        (\<forall>p\<in>set (s # pre). idx (loop_body uni lines p) \<le> idx h)"
      by (simp add: scan_states_step)
    then show ?thesis by blast
  qed
qed

lemma scan_states_later:
  assumes "h \<in> set (scan_states uni lines s)" and "t \<in> set (scan_states uni lines s)"
    and "idx h \<le> idx t"
  shows "t \<in> set (scan_states uni lines h)"
proof -
  from scan_states_split [OF assms(1)] obtain pre where
    pre: "scan_states uni lines s = pre @ scan_states uni lines h"
    "\<forall>p\<in>set pre. idx (loop_body uni lines p) \<le> idx h" by blast
  have "t \<notin> set pre"
  proof
    assume "t \<in> set pre"
    with pre(2) have "idx (loop_body uni lines t) \<le> idx h" by simp
    with loop_body_idx [of t uni lines] assms(3) show False by simp
  qed
  with assms(2) pre(1) show ?thesis by simp
qed

lemma current_function_kept:
  "t \<in> set (scan_states uni lines s) \<Longrightarrow>
   \<forall>m. idx s \<le> m \<and> m < idx t \<longrightarrow> func_match uni (lines ! m) = None \<Longrightarrow>
   current_function t = current_function s"
proof (induction uni lines s rule: scan_states.induct)
  case (1 uni lines s)
  from scan_states_cases [OF 1(2)] have sl: "idx s < length lines"
    and c: "t = s \<or> t \<in> set (scan_states uni lines (loop_body uni lines s))" by simp_all
  from c show ?case
  proof
    assume "t = s" then show ?thesis by simp
  next
    assume t: "t \<in> set (scan_states uni lines (loop_body uni lines s))"
    from scan_states_idx [OF t] have b: "idx (loop_body uni lines s) \<le> idx t" by simp
    with loop_body_idx [of s uni lines] have st: "idx s < idx t" by simp
    with 1(3) have "func_match uni (lines ! idx s) = None" by simp
    then have "current_function (loop_body uni lines s) = current_function s"
      by (simp add: loop_body_current_function track_function_def)
    moreover have "\<forall>m. idx (loop_body uni lines s) \<le> m \<and> m < idx t \<longrightarrow>
        func_match uni (lines ! m) = None"
      using 1(3) loop_body_idx [of s uni lines] by auto
    with 1(1) sl t have "current_function t = current_function (loop_body uni lines s)"
      by blast
    ultimately show ?thesis by simp
  qed
qed

subsection \<open>The name in the replacement line\<close>

text \<open>
  C6 (as the code has it): let the scan read a header line naming \<open>foo\<close> (a state \<open>h\<close>
  of the scan with the header at its index) and later reach a malformed line (a state
  \<open>t\<close>), with no header line after the first up to and including the malformed line.
  Then the line written for the malformed line, at the position \<open>length (new_lines t)\<close>
  of the output, is the call with the message \<^verbatim>\<open>AiPermissionController.\<close> followed by
  \<open>foo\<close>.
\<close>

theorem context_attribution:
  assumes "h \<in> set (scan_states uni lines initial_state)"
    and "func_match uni (lines ! idx h) = Some foo"
    and "t \<in> set (scan_states uni lines initial_state)"
    and "idx h \<le> idx t"
    and "\<forall>m. idx h < m \<and> m \<le> idx t \<longrightarrow> func_match uni (lines ! m) = None"
    and "malformed (lines ! idx t)"
  shows "fix_lines uni lines ! length (new_lines t) =
      lit ''    handleControllerError(error, res, 'AiPermissionController.'' @ foo @
      lit (CHR 0x27 # '');'') \<and>
    length (new_lines t) < length (fix_lines uni lines) \<and>
    take (length (new_lines t)) (fix_lines uni lines) = new_lines t"
proof -
  have cf: "track_function uni (current_function t) (lines ! idx t) = Some foo"
  proof (cases "idx h = idx t")
    case True
    with assms(2) show ?thesis by (simp add: track_function_def)
  next
    case False
    with assms(4) have ht: "idx h < idx t" by simp
    from scan_states_later [OF assms(1,3,4)] have "t \<in> set (scan_states uni lines h)" .
    with scan_states_cases [of t uni lines h] ht
    have t: "t \<in> set (scan_states uni lines (loop_body uni lines h))" by auto
    have "\<forall>m. idx (loop_body uni lines h) \<le> m \<and> m < idx t \<longrightarrow>
        func_match uni (lines ! m) = None"
      using assms(5) loop_body_idx [of h uni lines] by auto
    with t have "current_function t = current_function (loop_body uni lines h)"
      by (rule current_function_kept)
    also have "\<dots> = Some foo"
      using assms(2) by (simp add: loop_body_current_function track_function_def)
    finally show ?thesis using assms(5) ht by (simp add: track_function_def)
  qed
  from scan_states_idx [OF assms(3)] have tl: "idx t < length lines" by simp
  then have d: "drop (idx t) lines = lines ! idx t # drop (Suc (idx t)) lines"
    by (simp add: Cons_nth_drop_Suc)
  have "fix_lines uni lines =
      new_lines t @ replacement (Some foo) # skip_list uni (Some foo) (drop (Suc (idx t)) lines)"
    using fix_lines_at [OF assms(3)] assms(6) cf by (simp add: d)
  then show ?thesis by (simp add: replacement_def fmt_def)
qed

theorem context_attribution_witness:
  "initial_state \<in> set (scan_states ascii_only attribution_lines initial_state) \<and>
   func_match ascii_only (attribution_lines ! 0) = Some (lit ''Foo'') \<and>
   \<lparr>idx = 2, new_lines = [attribution_lines ! 0, attribution_lines ! 1],
     current_function = Some (lit ''Foo'')\<rparr>
     \<in> set (scan_states ascii_only attribution_lines initial_state) \<and>
   func_match ascii_only (attribution_lines ! 1) = None \<and>
   func_match ascii_only (attribution_lines ! 2) = None \<and>
   malformed (attribution_lines ! 2) \<and>
   fix_lines ascii_only attribution_lines ! 2 =
     lit ''    handleControllerError(error, res, 'AiPermissionController.Foo');''"
proof -
  let ?t = "\<lparr>idx = 2, new_lines = [attribution_lines ! 0, attribution_lines ! 1],
     current_function = Some (lit ''Foo'')\<rparr>"
  have h: "initial_state \<in> set (scan_states ascii_only attribution_lines initial_state)"
    by (simp add: attribution_lines_def scan_states.simps eval_defs)
  have f0: "func_match ascii_only (attribution_lines ! idx initial_state) = Some (lit ''Foo'')"
    and f1: "func_match ascii_only (attribution_lines ! 1) = None"
    and f2: "func_match ascii_only (attribution_lines ! 2) = None"
    by (simp_all add: attribution_lines_def eval_defs)
  have t: "?t \<in> set (scan_states ascii_only attribution_lines initial_state)"
    by (simp add: attribution_lines_def scan_states.simps eval_defs)
  have m: "malformed (attribution_lines ! idx ?t)"
    by (simp add: attribution_lines_def eval_defs)
  have le: "idx initial_state \<le> idx ?t" by (simp add: initial_state_def)
  have n: "\<forall>k. idx initial_state < k \<and> k \<le> idx ?t \<longrightarrow>
      func_match ascii_only (attribution_lines ! k) = None"
  proof (intro allI impI)
    fix k assume "idx initial_state < k \<and> k \<le> idx ?t"
    then have "k = 1 \<or> k = 2" by (auto simp: initial_state_def)
    with f1 f2 show "func_match ascii_only (attribution_lines ! k) = None" by auto
  qed
  from context_attribution [OF h f0 t le n m]
  have "fix_lines ascii_only attribution_lines ! 2 =
      lit ''    handleControllerError(error, res, 'AiPermissionController.Foo');''"
    by (simp add: lit_def numeral_2_eq_2)
  moreover from f0 have "func_match ascii_only (attribution_lines ! 0) = Some (lit ''Foo'')"
    by (simp add: initial_state_def)
  ultimately show ?thesis using h t f1 f2 m by simp
qed

text \<open>
  C6 (as the specification states it) fails when the header line lies in the lines
  that an earlier repair drops: the scan does not read it. Here the second malformed
  line follows the header of \<open>Foo\<close> with no header between them, and the line
  written for it names \<open>A\<close>.
\<close>

theorem context_attribution_counterexample:
  "func_match ascii_only (swallowed_header_lines ! 2) = Some (lit ''Foo'') \<and>
   func_match ascii_only (swallowed_header_lines ! 3) = None \<and>
   func_match ascii_only (swallowed_header_lines ! 4) = None \<and>
   func_match ascii_only (swallowed_header_lines ! 5) = None \<and>
   malformed (swallowed_header_lines ! 5) \<and>
   fix_lines ascii_only swallowed_header_lines =
     [lit ''export async function A(req, res) {'',
      lit ''    handleControllerError(error, res, 'AiPermissionController.A');'',
      lit ''  }'',
      lit ''    handleControllerError(error, res, 'AiPermissionController.A');''] \<and>
   lit ''    handleControllerError(error, res, 'AiPermissionController.Foo');''
     \<notin> set (fix_lines ascii_only swallowed_header_lines)"
  by (simp add: swallowed_header_lines_def eval_defs)

subsection \<open>Rounds and the lines they consume\<close>

lemma skip_malformed_out:
  "snd (skip_malformed lines k out) = out \<or>
   snd (skip_malformed lines k out) = out @ [closing_line]"
proof (induction lines k out rule: skip_malformed.induct)
  case (1 lines k out)
  show ?case
  proof (cases "k < length lines")
    case False
    then show ?thesis by (simp add: skip_malformed_end)
  next
    case kl: True
    show ?thesis
    proof (cases "closing (lines ! k) \<and> Suc k < length lines \<and> closing (lines ! Suc k)")
      case True
      then show ?thesis by (simp add: skip_malformed_found)
    next
      case False
      with kl 1 show ?thesis by (simp add: skip_malformed_next)
    qed
  qed
qed

lemma loop_body_malformed:
  assumes "malformed (lines ! idx s)"
  shows "new_lines (loop_body uni lines s) =
      new_lines s @ [replacement (track_function uni (current_function s) (lines ! idx s))] \<or>
    new_lines (loop_body uni lines s) =
      new_lines s @
      [replacement (track_function uni (current_function s) (lines ! idx s)), closing_line]"
  using assms
    skip_malformed_out [of lines "idx s + 1"
      "new_lines s @ [replacement (track_function uni (current_function s) (lines ! idx s))]"]
  by (auto simp: loop_body_def Let_def split: prod.splits)

lemma round_output_plain:
  "\<not> malformed (lines ! idx s) \<Longrightarrow> round_output uni lines s = [lines ! idx s]"
  by (simp add: round_output_def loop_body_plain)

lemma loop_body_new_lines:
  "new_lines (loop_body uni lines s) = new_lines s @ round_output uni lines s"
proof (cases "malformed (lines ! idx s)")
  case True
  from loop_body_malformed [OF this, of uni] show ?thesis
    by (auto simp: round_output_def)
next
  case False
  then show ?thesis by (simp add: round_output_plain) (simp add: loop_body_plain)
qed

lemma main_loop_rounds_output:
  "new_lines (main_loop uni lines s) =
   new_lines s @ concat (map (round_output uni lines) (scan_states uni lines s))"
proof (induction uni lines s rule: scan_states.induct)
  case (1 uni lines s)
  show ?case
  proof (cases "idx s < length lines")
    case False
    then show ?thesis by (simp add: main_loop_end scan_states_end)
  next
    case True
    with 1 have "new_lines (main_loop uni lines (loop_body uni lines s)) =
        new_lines (loop_body uni lines s) @
        concat (map (round_output uni lines) (scan_states uni lines (loop_body uni lines s)))"
      by blast
    with True show ?thesis
      by (simp add: main_loop_step scan_states_step loop_body_new_lines)
  qed
qed

lemma scan_states_cover:
  "idx s \<le> k \<Longrightarrow> k < length lines \<Longrightarrow>
   \<exists>t\<in>set (scan_states uni lines s). idx t \<le> k \<and> k < idx (loop_body uni lines t)"
proof (induction uni lines s rule: scan_states.induct)
  case (1 uni lines s)
  from 1(2,3) have sl: "idx s < length lines" by simp
  show ?case
  proof (cases "k < idx (loop_body uni lines s)")
    case True
    with 1(2) sl show ?thesis by (subst scan_states_step) auto
  next
    case False
    with 1(1) sl 1(3) obtain t where "t \<in> set (scan_states uni lines (loop_body uni lines s))"
      "idx t \<le> k \<and> k < idx (loop_body uni lines t)" by force
    with sl show ?thesis by (subst scan_states_step) auto
  qed
qed

lemma scan_states_apart:
  assumes "t \<in> set (scan_states uni lines s)" and "u \<in> set (scan_states uni lines s)"
    and "t \<noteq> u"
  shows "idx (loop_body uni lines t) \<le> idx u \<or> idx (loop_body uni lines u) \<le> idx t"
proof (cases "idx t \<le> idx u")
  case True
  from scan_states_later [OF assms(1,2) True] have "u \<in> set (scan_states uni lines t)" .
  with scan_states_cases [of u uni lines t] assms(3)
  have "u \<in> set (scan_states uni lines (loop_body uni lines t))" by auto
  from scan_states_idx [OF this] show ?thesis by simp
next
  case False
  then have "idx u \<le> idx t" by simp
  from scan_states_later [OF assms(2,1) this] have "t \<in> set (scan_states uni lines u)" .
  with scan_states_cases [of t uni lines u] assms(3)
  have "t \<in> set (scan_states uni lines (loop_body uni lines u))" by auto
  from scan_states_idx [OF this] show ?thesis by simp
qed

lemma scan_states_round_unique:
  assumes "t \<in> set (scan_states uni lines s)" and "u \<in> set (scan_states uni lines s)"
    and "idx t \<le> k" and "k < idx (loop_body uni lines t)"
    and "idx u \<le> k" and "k < idx (loop_body uni lines u)"
  shows "t = u"
proof (rule ccontr)
  assume "t \<noteq> u"
  from scan_states_apart [OF assms(1,2) this] assms(3-6) show False by auto
qed

subsection \<open>Every line is consumed once\<close>

text \<open>
  C7: every line index belongs to exactly one round of the scan, and the ranges of
  lines that two different rounds consume are disjoint. A round at a line that is not
  malformed consumes this line only and appends it to the output as it is; a round at
  a malformed line appends the replacement line, or the replacement line and one
  closing line, and nothing of the lines it consumes. The output of the pass is what
  the rounds append, in their order.
\<close>

theorem every_line_consumed_once:
  "(k < length lines \<longrightarrow>
     (\<exists>!t. t \<in> set (scan_states uni lines initial_state) \<and>
        idx t \<le> k \<and> k < idx (loop_body uni lines t))) \<and>
   (\<forall>t\<in>set (scan_states uni lines initial_state).
      \<forall>u\<in>set (scan_states uni lines initial_state). t \<noteq> u \<longrightarrow>
        idx (loop_body uni lines t) \<le> idx u \<or> idx (loop_body uni lines u) \<le> idx t) \<and>
   (\<forall>t\<in>set (scan_states uni lines initial_state).
      if malformed (lines ! idx t)
      then round_output uni lines t =
             [replacement (track_function uni (current_function t) (lines ! idx t))] \<or>
           round_output uni lines t =
             [replacement (track_function uni (current_function t) (lines ! idx t)),
              closing_line]
      else idx (loop_body uni lines t) = idx t + 1 \<and>
           round_output uni lines t = [lines ! idx t]) \<and>
   fix_lines uni lines =
     concat (map (round_output uni lines) (scan_states uni lines initial_state))"
proof (intro conjI impI ballI)
  assume "k < length lines"
  then obtain t where t: "t \<in> set (scan_states uni lines initial_state)"
    "idx t \<le> k \<and> k < idx (loop_body uni lines t)"
    using scan_states_cover [of initial_state k lines uni] by (auto simp: initial_state_def)
  show "\<exists>!t. t \<in> set (scan_states uni lines initial_state) \<and>
        idx t \<le> k \<and> k < idx (loop_body uni lines t)"
  proof (rule ex1I [of _ t])
    from t show "t \<in> set (scan_states uni lines initial_state) \<and>
        idx t \<le> k \<and> k < idx (loop_body uni lines t)" by simp
  next
    fix u assume "u \<in> set (scan_states uni lines initial_state) \<and>
        idx u \<le> k \<and> k < idx (loop_body uni lines u)"
    with t show "u = t" by (metis scan_states_round_unique)
  qed
next
  fix t u assume "t \<in> set (scan_states uni lines initial_state)"
    "u \<in> set (scan_states uni lines initial_state)" "t \<noteq> u"
  then show "idx (loop_body uni lines t) \<le> idx u \<or> idx (loop_body uni lines u) \<le> idx t"
    by (rule scan_states_apart)
next
  fix t assume "t \<in> set (scan_states uni lines initial_state)"
  show "if malformed (lines ! idx t)
      then round_output uni lines t =
             [replacement (track_function uni (current_function t) (lines ! idx t))] \<or>
           round_output uni lines t =
             [replacement (track_function uni (current_function t) (lines ! idx t)),
              closing_line]
      else idx (loop_body uni lines t) = idx t + 1 \<and>
           round_output uni lines t = [lines ! idx t]"
  proof (cases "malformed (lines ! idx t)")
    case True
    from loop_body_malformed [OF this, of uni] True show ?thesis
      by (auto simp: round_output_def)
  next
    case False
    then show ?thesis by (simp add: round_output_plain) (simp add: loop_body_plain)
  qed
next
  show "fix_lines uni lines =
     concat (map (round_output uni lines) (scan_states uni lines initial_state))"
    by (simp add: fix_lines_def main_loop_rounds_output) (simp add: initial_state_def)
qed

theorem every_line_consumed_once_witness:
  "2 < length rounds_lines \<and>
   (\<exists>!t. t \<in> set (scan_states ascii_only rounds_lines initial_state) \<and>
      idx t \<le> 2 \<and> 2 < idx (loop_body ascii_only rounds_lines t)) \<and>
   map idx (scan_states ascii_only rounds_lines initial_state) = [0, 1, 4, 5] \<and>
   fix_lines ascii_only rounds_lines =
     concat (map (round_output ascii_only rounds_lines)
       (scan_states ascii_only rounds_lines initial_state)) \<and>
   fix_lines ascii_only rounds_lines =
     [lit ''export async function getItem(req, res) {'',
      lit ''    handleControllerError(error, res, 'AiPermissionController.getItem');'',
      lit ''  }'',
      lit ''}'',
      lit ''    handleControllerError(error, res, 'AiPermissionController.getItem');'']"
proof -
  have l: "2 < length rounds_lines" by (simp add: rounds_lines_def)
  have s: "map idx (scan_states ascii_only rounds_lines initial_state) = [0, 1, 4, 5]"
    by (simp add: rounds_lines_def scan_states.simps eval_defs)
  have f: "fix_lines ascii_only rounds_lines =
     [lit ''export async function getItem(req, res) {'',
      lit ''    handleControllerError(error, res, 'AiPermissionController.getItem');'',
      lit ''  }'',
      lit ''}'',
      lit ''    handleControllerError(error, res, 'AiPermissionController.getItem');'']"
    by (simp add: rounds_lines_def eval_defs)
  note e = every_line_consumed_once [of 2 rounds_lines ascii_only]
  from e l have "\<exists>!t. t \<in> set (scan_states ascii_only rounds_lines initial_state) \<and>
      idx t \<le> 2 \<and> 2 < idx (loop_body ascii_only rounds_lines t)" by blast
  moreover from e have "fix_lines ascii_only rounds_lines =
     concat (map (round_output ascii_only rounds_lines)
       (scan_states ascii_only rounds_lines initial_state))" by blast
  ultimately show ?thesis using l s f by blast
qed

subsection \<open>Lines outside the malformed regions\<close>

lemma scan_states_sorted: "sorted_wrt (<) (map idx (scan_states uni lines s))"
proof (induction uni lines s rule: scan_states.induct)
  case (1 uni lines s)
  show ?case
  proof (cases "idx s < length lines")
    case False
    then show ?thesis by (simp add: scan_states_end)
  next
    case True
    with 1 have "sorted_wrt (<) (map idx (scan_states uni lines (loop_body uni lines s)))"
      by blast
    moreover have "idx s < idx t"
      if "t \<in> set (scan_states uni lines (loop_body uni lines s))" for t
      using scan_states_idx [OF that] loop_body_idx [of s uni lines] by simp
    ultimately show ?thesis using True by (auto simp: scan_states_step)
  qed
qed

lemma outside_indices:
  "filter (\<lambda>k. \<not> in_region uni lines k) [0..<length lines] =
   map idx (filter (\<lambda>t. \<not> malformed (lines ! idx t)) (scan_states uni lines initial_state))"
  (is "?l = ?r")
proof (rule sorted_distinct_set_unique)
  show "sorted ?l" by (simp add: sorted_wrt_filter)
  show "distinct ?l" by simp
  have r: "?r = filter (\<lambda>k. \<not> malformed (lines ! k))
      (map idx (scan_states uni lines initial_state))"
    by (simp add: filter_map comp_def)
  have "sorted_wrt (<) ?r"
    unfolding r by (intro sorted_wrt_filter scan_states_sorted)
  then show "sorted ?r" and "distinct ?r"
    by (simp_all add: strict_sorted_iff)
  show "set ?l = set ?r"
  proof (intro set_eqI iffI)
    fix k assume "k \<in> set ?l"
    then have kl: "k < length lines" and out: "\<not> in_region uni lines k" by simp_all
    from kl obtain t where t: "t \<in> set (scan_states uni lines initial_state)"
      "idx t \<le> k" "k < idx (loop_body uni lines t)"
      using scan_states_cover [of initial_state k lines uni] by (auto simp: initial_state_def)
    with out have nm: "\<not> malformed (lines ! idx t)" by (auto simp: in_region_def)
    with t(2,3) have "idx t = k" by (simp add: loop_body_plain)
    with t(1) nm show "k \<in> set ?r" by force
  next
    fix k assume "k \<in> set ?r"
    then obtain t where t: "t \<in> set (scan_states uni lines initial_state)"
      "\<not> malformed (lines ! idx t)" "k = idx t" by auto
    from scan_states_idx [OF t(1)] t(3) have kl: "k < length lines" by simp
    have "\<not> in_region uni lines k"
    proof
      assume "in_region uni lines k"
      then obtain u where u: "u \<in> set (scan_states uni lines initial_state)"
        "malformed (lines ! idx u)" "idx u \<le> k" "k < idx (loop_body uni lines u)"
        by (auto simp: in_region_def)
      from t(2,3) have tk: "idx t \<le> k" "k < idx (loop_body uni lines t)"
        by (simp_all add: loop_body_plain)
      from t(1) u(1) tk u(3,4) have "t = u" by (rule scan_states_round_unique)
      with t(2) u(2) show False by simp
    qed
    with kl show "k \<in> set ?l" by simp
  qed
qed

lemma subseq_concat_map:
  "\<forall>x\<in>set xs. subseq (f x) (g x) \<Longrightarrow> subseq (concat (map f xs)) (concat (map g xs))"
  by (induction xs) (auto intro: list_emb_append_mono)

lemma map_filter_concat:
  "map f (filter P xs) = concat (map (\<lambda>x. if P x then [f x] else []) xs)"
  by (induction xs) simp_all

text \<open>
  C5: the lines whose index lies in no malformed region, taken in the order of the
  input, are a subsequence of the output: each of them is in the output as it is, and
  they keep their order.
\<close>

theorem verbatim_preservation:
  "subseq (map ((!) lines) (filter (\<lambda>k. \<not> in_region uni lines k) [0..<length lines]))
     (fix_lines uni lines)"
proof -
  let ?S = "scan_states uni lines initial_state"
  let ?P = "\<lambda>t. \<not> malformed (lines ! idx t)"
  have "map ((!) lines) (filter (\<lambda>k. \<not> in_region uni lines k) [0..<length lines]) =
      map (\<lambda>t. lines ! idx t) (filter ?P ?S)"
    by (simp add: outside_indices comp_def)
  also have "\<dots> = concat (map (\<lambda>t. if ?P t then [lines ! idx t] else []) ?S)"
    by (rule map_filter_concat)
  finally have l: "map ((!) lines) (filter (\<lambda>k. \<not> in_region uni lines k) [0..<length lines]) =
      concat (map (\<lambda>t. if ?P t then [lines ! idx t] else []) ?S)" .
  have r: "fix_lines uni lines = concat (map (round_output uni lines) ?S)"
    by (simp add: fix_lines_def main_loop_rounds_output) (simp add: initial_state_def)
  have "\<forall>t\<in>set ?S. subseq (if ?P t then [lines ! idx t] else []) (round_output uni lines t)"
    by (simp add: round_output_plain)
  then show ?thesis unfolding l r by (rule subseq_concat_map)
qed

theorem verbatim_preservation_witness:
  "filter (\<lambda>k. \<not> in_region ascii_only outside_lines k) [0..<length outside_lines] =
     [0, 5, 6] \<and>
   subseq [lit ''  } catch (error) {'', lit ''}'', lit '''']
     (fix_lines ascii_only outside_lines)"
proof -
  have s: "scan_states ascii_only outside_lines initial_state =
     [initial_state,
      \<lparr>idx = 1, new_lines = [lit ''  } catch (error) {''], current_function = None\<rparr>,
      \<lparr>idx = 5, new_lines =
         [lit ''  } catch (error) {'',
          lit ''    handleControllerError(error, res, 'AiPermissionController.None');'',
          lit ''  }''],
       current_function = None\<rparr>,
      \<lparr>idx = 6, new_lines =
         [lit ''  } catch (error) {'',
          lit ''    handleControllerError(error, res, 'AiPermissionController.None');'',
          lit ''  }'', lit ''}''],
       current_function = None\<rparr>]"
    by (simp add: outside_lines_def scan_states.simps eval_defs)
  have r: "in_region ascii_only outside_lines k \<longleftrightarrow> 1 \<le> k \<and> k < 5" for k
    unfolding in_region_def s
    by (simp add: outside_lines_def eval_defs) arith
  have l: "length outside_lines = 7" by (simp add: outside_lines_def)
  have f: "filter (\<lambda>k. \<not> in_region ascii_only outside_lines k) [0..<length outside_lines] =
      [0, 5, 6]"
    unfolding r l by (simp add: upt_rec)
  from verbatim_preservation [of outside_lines ascii_only]
  have "subseq [outside_lines ! 0, outside_lines ! 5, outside_lines ! 6]
      (fix_lines ascii_only outside_lines)"
    unfolding f by simp
  then have "subseq [lit ''  } catch (error) {'', lit ''}'', lit '''']
      (fix_lines ascii_only outside_lines)"
    by (simp add: outside_lines_def)
  with f show ?thesis by simp
qed

subsection \<open>Splitting and joining\<close>

lemma split_nl_line: "10 \<notin> set l \<Longrightarrow> split_nl l = [l]"
  by (induction l) auto

lemma split_nl_append: "10 \<notin> set l \<Longrightarrow> split_nl (l @ 10 # r) = l # split_nl r"
  by (induction l) auto

lemma split_nl_join_nl:
  "ls \<noteq> [] \<Longrightarrow> \<forall>l\<in>set ls. 10 \<notin> set l \<Longrightarrow> split_nl (join_nl ls) = ls"
  by (induction ls rule: join_nl.induct) (simp_all add: split_nl_line split_nl_append)

lemma split_nl_nonempty: "split_nl t \<noteq> []"
  by (induction t) (auto split: list.splits)

lemma split_nl_no_nl: "\<forall>l\<in>set (split_nl t). 10 \<notin> set l"
proof (induction t)
  case Nil
  show ?case by simp
next
  case (Cons c cs)
  obtain l ls where r: "split_nl cs = l # ls"
    using split_nl_nonempty [of cs] by (cases "split_nl cs") auto
  with Cons show ?case by auto
qed

subsection \<open>The output has no malformed line\<close>

lemma sublist_pair_appendD:
  assumes "sublist [a, b] (xs @ ys)"
  shows "sublist [a, b] xs \<or> sublist [a, b] ys \<or>
    (xs \<noteq> [] \<and> last xs = a \<and> ys \<noteq> [] \<and> hd ys = b)"
proof -
  from assms have "sublist [a, b] xs \<or> sublist [a, b] ys \<or>
      (\<exists>xs1 xs2. [a, b] = xs1 @ xs2 \<and> suffix xs1 xs \<and> prefix xs2 ys)"
    by (simp only: sublist_append)
  then consider "sublist [a, b] xs" | "sublist [a, b] ys"
    | xs1 xs2 where "[a, b] = xs1 @ xs2" "suffix xs1 xs" "prefix xs2 ys"
    by blast
  then show ?thesis
  proof cases
    case 3
    have "(xs1 = [] \<and> xs2 = [a, b]) \<or> (xs1 = [a] \<and> xs2 = [b]) \<or>
        (xs1 = [a, b] \<and> xs2 = [])"
    proof (cases xs1)
      case Nil
      with 3(1) show ?thesis by simp
    next
      case (Cons x t)
      with 3(1) have x: "x = a" and t: "t @ xs2 = [b]" by simp_all
      show ?thesis
      proof (cases t)
        case Nil
        with t x Cons show ?thesis by simp
      next
        case (Cons y u)
        with t x \<open>xs1 = x # t\<close> show ?thesis by simp
      qed
    qed
    then consider "xs1 = []" "xs2 = [a, b]" | "xs1 = [a]" "xs2 = [b]"
      | "xs1 = [a, b]" "xs2 = []"
      by blast
    then show ?thesis
    proof cases
      case 1
      with 3(3) show ?thesis by (auto simp: prefix_def)
    next
      case 2
      with 3(2,3) show ?thesis by (auto simp: prefix_def suffix_def)
    next
      case 3
      with \<open>suffix xs1 xs\<close> show ?thesis by (auto simp: suffix_def)
    qed
  qed simp_all
qed

lemma is_word_ascii: "is_word uni c \<Longrightarrow> c \<noteq> 10 \<and> c \<noteq> 39"
  by (auto simp: is_word_def)

lemma func_match_word: "func_match uni l = Some n \<Longrightarrow> list_all (is_word uni) n"
  by (auto simp: func_match_def Let_def list_all_iff split: if_splits dest: set_takeWhileD)

lemma track_function_word:
  "word_name uni cf \<Longrightarrow> word_name uni (track_function uni cf l)"
  by (auto simp: track_function_def word_name_def func_match_word split: option.splits)

lemma fmt_chars: "word_name uni cf \<Longrightarrow> 39 \<notin> set (fmt cf) \<and> 10 \<notin> set (fmt cf)"
  by (auto simp: word_name_def fmt_def lit_def list_all_iff split: option.splits
      dest: is_word_ascii)

lemma malformed_quote_comma: "malformed l \<Longrightarrow> sublist [39, 44] l"
proof -
  have "sublist [39, 44] (lit ''handleControllerError(error, res, ','')"
    by (simp add: lit_def sublist_Cons_right)
  then show "malformed l \<Longrightarrow> sublist [39, 44] l"
    unfolding malformed_def by (rule sublist_order.order.trans)
qed

lemma replacement_not_malformed:
  assumes "word_name uni cf"
  shows "\<not> malformed (replacement cf)"
proof
  assume "malformed (replacement cf)"
  then have s: "sublist [39, 44]
      (lit ''    handleControllerError(error, res, 'AiPermissionController.'' @
       (fmt cf @ lit (CHR 0x27 # '');'')))"
    using malformed_quote_comma by (simp add: replacement_def)
  from fmt_chars [OF assms] have q: "39 \<notin> set (fmt cf)" by simp
  have a: "\<not> sublist [39, 44]
      (lit ''    handleControllerError(error, res, 'AiPermissionController.'')"
    by (simp add: lit_def sublist_Cons_right)
  have b: "\<not> sublist [39, 44] (lit (CHR 0x27 # '');''))"
    by (simp add: lit_def sublist_Cons_right)
  have n: "\<not> sublist [39, 44] (fmt cf)"
    using q set_mono_sublist [of "[39, 44]" "fmt cf"] by auto
  have l: "last (lit ''    handleControllerError(error, res, 'AiPermissionController.'') \<noteq> 39"
    by (simp add: lit_def)
  from sublist_pair_appendD [OF s] a l
  have "sublist [39, 44] (fmt cf @ lit (CHR 0x27 # '');''))" by blast
  from sublist_pair_appendD [OF this] n b
  have "fmt cf \<noteq> [] \<and> last (fmt cf) = 39" by blast
  with q show False using last_in_set by metis
qed

lemma replacement_no_nl: "word_name uni cf \<Longrightarrow> 10 \<notin> set (replacement cf)"
  using fmt_chars [of uni cf] by (simp add: replacement_def lit_def)

lemma closing_line_plain: "\<not> malformed closing_line \<and> 10 \<notin> set closing_line"
  by (simp add: closing_line_def malformed_def lit_def sublist_Cons_right)

lemma scan_list_output:
  "\<forall>cf. word_name uni cf \<longrightarrow> P (replacement cf) \<Longrightarrow> P closing_line \<Longrightarrow>
   word_name uni cf \<Longrightarrow> \<forall>l\<in>set ls. \<not> malformed l \<longrightarrow> P l \<Longrightarrow>
   \<forall>l\<in>set (scan_list uni cf ls). P l"
  and "\<forall>cf. word_name uni cf \<longrightarrow> P (replacement cf) \<Longrightarrow> P closing_line \<Longrightarrow>
   word_name uni cf \<Longrightarrow> \<forall>l\<in>set ls. \<not> malformed l \<longrightarrow> P l \<Longrightarrow>
   \<forall>l\<in>set (skip_list uni cf ls). P l"
proof (induction uni cf ls and uni cf ls rule: scan_list_skip_list.induct)
  case (2 uni cf l ls)
  from 2(5) have w: "word_name uni (track_function uni cf l)"
    by (rule track_function_word)
  from 2(6) have rest: "\<forall>l\<in>set ls. \<not> malformed l \<longrightarrow> P l" by simp
  show ?case
  proof (cases "malformed l")
    case True
    with 2(1,3,4) w rest have "\<forall>x\<in>set (skip_list uni (track_function uni cf l) ls). P x"
      by blast
    with True 2(3) w show ?thesis by simp
  next
    case False
    with 2(2,3,4) w rest have "\<forall>x\<in>set (scan_list uni (track_function uni cf l) ls). P x"
      by blast
    with False 2(6) show ?thesis by simp
  qed
next
  case (5 uni cf l m ls)
  from 5(6) have rest: "\<forall>l\<in>set ls. \<not> malformed l \<longrightarrow> P l"
    and rest': "\<forall>l\<in>set (m # ls). \<not> malformed l \<longrightarrow> P l" by simp_all
  show ?case
  proof (cases "closing l \<and> closing m")
    case True
    with 5(1,3,4,5) rest have "\<forall>x\<in>set (scan_list uni cf ls). P x" by blast
    with True 5(4) show ?thesis by simp
  next
    case False
    with 5(2,3,4,5) rest' have "\<forall>x\<in>set (skip_list uni cf (m # ls)). P x" by blast
    with False show ?thesis by auto
  qed
qed simp_all

lemma fix_lines_not_malformed: "\<forall>l\<in>set (fix_lines uni lines). \<not> malformed l"
  unfolding fix_lines_list
  by (rule scan_list_output(1) [where P = "\<lambda>l. \<not> malformed l"])
    (simp_all add: replacement_not_malformed [of uni] closing_line_plain word_name_def)

lemma fix_lines_no_nl:
  "\<forall>l\<in>set lines. 10 \<notin> set l \<Longrightarrow> \<forall>l\<in>set (fix_lines uni lines). 10 \<notin> set l"
  unfolding fix_lines_list
  by (rule scan_list_output(1) [where P = "\<lambda>l. 10 \<notin> set l"])
    (simp_all add: replacement_no_nl [of uni] closing_line_plain word_name_def)

lemma fix_lines_nonempty: "lines \<noteq> [] \<Longrightarrow> fix_lines uni lines \<noteq> []"
  by (cases lines) (simp_all add: fix_lines_list)

lemma fix_lines_plain: "\<forall>l\<in>set lines. \<not> malformed l \<Longrightarrow> fix_lines uni lines = lines"
  by (simp add: fix_lines_list scan_list_all_plain)

subsection \<open>Idempotence\<close>

text \<open>
  C4: the pass on its own output returns this output, on the lines and on the text of
  the file, because no line of the output is malformed: a line that is copied is not
  malformed, the closing line is not, and the replacement line is not, since the name
  in it has word characters only and so no quote.
\<close>

theorem repair_idempotent:
  "fix_text uni (fix_text uni content) = fix_text uni content \<and>
   fix_lines uni (fix_lines uni lines) = fix_lines uni lines \<and>
   (\<forall>l\<in>set (fix_lines uni lines). \<not> malformed l)"
proof (intro conjI)
  let ?out = "fix_lines uni (split_nl content)"
  have "?out \<noteq> []"
    by (intro fix_lines_nonempty split_nl_nonempty)
  moreover have "\<forall>l\<in>set ?out. 10 \<notin> set l"
    by (intro fix_lines_no_nl split_nl_no_nl)
  ultimately have "split_nl (join_nl ?out) = ?out" by (rule split_nl_join_nl)
  moreover have "fix_lines uni ?out = ?out"
    by (intro fix_lines_plain fix_lines_not_malformed)
  ultimately show "fix_text uni (fix_text uni content) = fix_text uni content"
    by (simp add: fix_text_def)
  show "fix_lines uni (fix_lines uni lines) = fix_lines uni lines"
    by (intro fix_lines_plain fix_lines_not_malformed)
  show "\<forall>l\<in>set (fix_lines uni lines). \<not> malformed l"
    by (rule fix_lines_not_malformed)
qed

theorem repair_idempotent_witness:
  "fix_text ascii_only idempotence_text =
     lit ''    handleControllerError(error, res, 'AiPermissionController.None');\<newline>  }\<newline>x'' \<and>
   fix_text ascii_only (fix_text ascii_only idempotence_text) =
     fix_text ascii_only idempotence_text \<and>
   fix_lines ascii_only idempotence_lines =
     [lit ''export async function list(req, res) {'',
      lit ''    handleControllerError(error, res, 'AiPermissionController.list');'',
      lit ''  }''] \<and>
   fix_lines ascii_only (fix_lines ascii_only idempotence_lines) =
     fix_lines ascii_only idempotence_lines \<and>
   \<not> malformed (lit ''    handleControllerError(error, res, 'AiPermissionController.list');'')"
proof -
  have t: "fix_text ascii_only idempotence_text =
     lit ''    handleControllerError(error, res, 'AiPermissionController.None');\<newline>  }\<newline>x''"
    by (simp add: idempotence_text_def fix_text_def eval_defs)
  have f: "fix_lines ascii_only idempotence_lines =
     [lit ''export async function list(req, res) {'',
      lit ''    handleControllerError(error, res, 'AiPermissionController.list');'',
      lit ''  }'']"
    by (simp add: idempotence_lines_def eval_defs)
  note i = repair_idempotent [of ascii_only idempotence_text idempotence_lines]
  from i have "\<forall>l\<in>set (fix_lines ascii_only idempotence_lines). \<not> malformed l" by blast
  then have "\<not> malformed
      (lit ''    handleControllerError(error, res, 'AiPermissionController.list');'')"
    unfolding f by simp
  with i t f show ?thesis by blast
qed

subsection \<open>The round that consumes a malformed line\<close>

lemma strip_parts:
  "\<exists>a b. l = a @ strip l @ b \<and> list_all is_space a \<and> list_all is_space b"
proof -
  let ?d = "dropWhile is_space l"
  have "rev ?d = takeWhile is_space (rev ?d) @ dropWhile is_space (rev ?d)" by simp
  then have "?d = rev (dropWhile is_space (rev ?d)) @ rev (takeWhile is_space (rev ?d))"
    by (metis rev_append rev_rev_ident)
  then have "l = takeWhile is_space l @ strip l @ rev (takeWhile is_space (rev ?d))"
    by (metis strip_def takeWhile_dropWhile_id)
  moreover have "list_all is_space (takeWhile is_space l)"
    by (auto simp: list_all_iff dest: set_takeWhileD)
  moreover have "list_all is_space (rev (takeWhile is_space (rev ?d)))"
    by (auto simp: list_all_iff dest: set_takeWhileD)
  ultimately show ?thesis by blast
qed

lemma malformed_not_closing: "malformed l \<Longrightarrow> \<not> closing l"
proof
  assume m: "malformed l" and c: "closing l"
  from strip_parts [of l] c obtain a b where
    l: "l = a @ [125] @ b" "list_all is_space a" "list_all is_space b"
    by (auto simp: closing_def lit_def)
  from m have "sublist [39, 44] l" by (rule malformed_quote_comma)
  then have "39 \<in> set l" using set_mono_sublist [of "[39, 44]" l] by auto
  with l show False by (auto simp: list_all_iff is_space_def)
qed

lemma enclosing_round:
  assumes "k < length lines" and "malformed (lines ! k)"
  shows "\<exists>t\<in>set (scan_states uni lines initial_state).
      malformed (lines ! idx t) \<and> idx t \<le> k \<and> k < idx (loop_body uni lines t) \<and>
      (\<forall>m. idx t < m \<and> m \<le> k \<longrightarrow> \<not> (closing (lines ! m) \<and> closing (lines ! Suc m)))"
proof -
  from assms(1) obtain t where t: "t \<in> set (scan_states uni lines initial_state)"
    "idx t \<le> k" "k < idx (loop_body uni lines t)"
    using scan_states_cover [of initial_state k lines uni] by (auto simp: initial_state_def)
  have mt: "malformed (lines ! idx t)"
  proof (rule ccontr)
    assume "\<not> malformed (lines ! idx t)"
    with t(2,3) have "idx t = k" by (simp add: loop_body_plain)
    with assms(2) \<open>\<not> malformed (lines ! idx t)\<close> show False by simp
  qed
  from assms(2) have nk: "\<not> closing (lines ! k)" by (rule malformed_not_closing)
  have "\<not> (closing (lines ! m) \<and> closing (lines ! Suc m))" if m: "idx t < m" "m \<le> k" for m
  proof
    assume c: "closing (lines ! m) \<and> closing (lines ! Suc m)"
    with nk m(2) have "m \<noteq> k" "Suc m \<noteq> k" by auto
    with m(2) have mk: "Suc m < k" by simp
    from m(1) c obtain j0 where j0: "Suc (idx t) \<le> j0" "j0 \<le> m" "closing (lines ! j0)"
      "closing (lines ! Suc j0)"
      "\<forall>i. Suc (idx t) \<le> i \<and> i < j0 \<longrightarrow> \<not> (closing (lines ! i) \<and> closing (lines ! Suc i))"
      using first_pair [of "Suc (idx t)" m lines] by (metis Suc_leI)
    from j0(2) mk assms(1) have "Suc j0 < length lines" by simp
    with mt j0 have "idx (loop_body uni lines t) = j0 + 2"
      using loop_body_folded [of lines t j0 uni] by auto
    with j0(2) mk t(3) show False by simp
  qed
  with t mt show ?thesis by blast
qed

subsection \<open>A malformed line without the two closing lines\<close>

text \<open>
  C3: let line \<open>k\<close> be malformed, with no two consecutive closing lines after it. Then
  the pass returns normally, and its output ends with a replacement line: it is the
  output for the lines before the triggering line followed by the replacement line
  written for that line, so that nothing of the lines after it is in the output. The
  triggering line, at \<open>idx t\<close>, is line \<open>k\<close> itself when the scan reaches line \<open>k\<close>;
  otherwise it is the malformed line before \<open>k\<close> after which the scan has dropped
  line \<open>k\<close>.
\<close>

theorem truncation_on_missing_terminator:
  assumes "k < length lines" and "malformed (lines ! k)"
    and "\<forall>j. k < j \<and> Suc j < length lines \<longrightarrow>
           \<not> (closing (lines ! j) \<and> closing (lines ! Suc j))"
  shows "\<exists>t\<in>set (scan_states uni lines initial_state).
      idx t \<le> k \<and> malformed (lines ! idx t) \<and>
      ((\<exists>u\<in>set (scan_states uni lines initial_state). idx u = k) \<longrightarrow> idx t = k) \<and>
      fix_lines uni lines =
        fix_lines uni (take (idx t) lines) @
        [replacement (track_function uni (current_function t) (lines ! idx t))]"
proof -
  from enclosing_round [OF assms(1,2), of uni] obtain t where
    t: "t \<in> set (scan_states uni lines initial_state)" "malformed (lines ! idx t)"
      "idx t \<le> k" "k < idx (loop_body uni lines t)"
      "\<forall>m. idx t < m \<and> m \<le> k \<longrightarrow> \<not> (closing (lines ! m) \<and> closing (lines ! Suc m))"
    by blast
  have "\<forall>j. idx t < j \<and> Suc j < length lines \<longrightarrow>
      \<not> (closing (lines ! j) \<and> closing (lines ! Suc j))"
    using t(5) assms(3) by (metis not_le_imp_less)
  with t(1,2) have out: "fix_lines uni lines =
      fix_lines uni (take (idx t) lines) @
      [replacement (track_function uni (current_function t) (lines ! idx t))]"
    using truncated_at [of t uni lines] by simp
  have "idx t = k" if u: "u \<in> set (scan_states uni lines initial_state)" "idx u = k" for u
  proof -
    from u(2) loop_body_idx [of u uni lines]
    have "idx u \<le> k" "k < idx (loop_body uni lines u)" by simp_all
    with u(1) t(1) have "u = t" using t(3,4) by (metis scan_states_round_unique)
    with u(2) show ?thesis by simp
  qed
  with t(1,2,3) out show ?thesis by blast
qed

theorem truncation_on_missing_terminator_witness:
  "1 < length truncated_lines \<and>
   malformed (truncated_lines ! 1) \<and>
   \<not> (closing (truncated_lines ! 2) \<and> closing (truncated_lines ! 3)) \<and>
   \<not> (closing (truncated_lines ! 3) \<and> closing (truncated_lines ! 4)) \<and>
   (\<exists>t\<in>set (scan_states ascii_only truncated_lines initial_state).
      idx t \<le> 1 \<and> malformed (truncated_lines ! idx t) \<and>
      fix_lines ascii_only truncated_lines =
        fix_lines ascii_only (take (idx t) truncated_lines) @
        [replacement (track_function ascii_only (current_function t)
           (truncated_lines ! idx t))]) \<and>
   fix_lines ascii_only truncated_lines =
     [lit ''export async function getItem(req, res) {'',
      lit ''    handleControllerError(error, res, 'AiPermissionController.getItem');'']"
proof -
  have l: "1 < length truncated_lines" by (simp add: truncated_lines_def)
  have m: "malformed (truncated_lines ! 1)"
    by (simp add: truncated_lines_def eval_defs)
  have c2: "\<not> (closing (truncated_lines ! 2) \<and> closing (truncated_lines ! 3))"
    and c3: "\<not> (closing (truncated_lines ! 3) \<and> closing (truncated_lines ! 4))"
    by (simp_all add: truncated_lines_def eval_defs)
  have n: "\<forall>j. 1 < j \<and> Suc j < length truncated_lines \<longrightarrow>
      \<not> (closing (truncated_lines ! j) \<and> closing (truncated_lines ! Suc j))"
  proof (intro allI impI)
    fix j assume "1 < j \<and> Suc j < length truncated_lines"
    then have "j = 2 \<or> j = 3" by (auto simp: truncated_lines_def)
    with c2 c3 show "\<not> (closing (truncated_lines ! j) \<and> closing (truncated_lines ! Suc j))"
      by (auto simp: numeral_3_eq_3 numeral_2_eq_2 eval_nat_numeral)
  qed
  have f: "fix_lines ascii_only truncated_lines =
     [lit ''export async function getItem(req, res) {'',
      lit ''    handleControllerError(error, res, 'AiPermissionController.getItem');'']"
    by (simp add: truncated_lines_def eval_defs)
  from truncation_on_missing_terminator [OF l m n, of ascii_only]
  have "\<exists>t\<in>set (scan_states ascii_only truncated_lines initial_state).
      idx t \<le> 1 \<and> malformed (truncated_lines ! idx t) \<and>
      fix_lines ascii_only truncated_lines =
        fix_lines ascii_only (take (idx t) truncated_lines) @
        [replacement (track_function ascii_only (current_function t)
           (truncated_lines ! idx t))]"
    by blast
  with l m c2 c3 f show ?thesis by blast
qed

subsection \<open>The closing lines of the output\<close>

lemma pair_after_iff:
  "pair_after lines k \<longleftrightarrow>
   (\<exists>j. k < j \<and> Suc j < length lines \<and> closing (lines ! j) \<and> closing (lines ! Suc j))"
proof
  assume "pair_after lines k"
  then obtain j where "Suc k \<le> j" "j < length lines - 1" "closing (lines ! j)"
    "closing (lines ! Suc j)" by (auto simp: pair_after_def)
  then have "k < j \<and> Suc j < length lines \<and> closing (lines ! j) \<and> closing (lines ! Suc j)"
    by simp
  then show "\<exists>j. k < j \<and> Suc j < length lines \<and> closing (lines ! j) \<and> closing (lines ! Suc j)"
    by blast
next
  assume "\<exists>j. k < j \<and> Suc j < length lines \<and> closing (lines ! j) \<and> closing (lines ! Suc j)"
  then obtain j where j: "k < j" "Suc j < length lines" "closing (lines ! j)"
    "closing (lines ! Suc j)" by blast
  then have "j \<in> set [Suc k..<length lines - 1]" by simp
  with j(3,4) show "pair_after lines k" unfolding pair_after_def by blast
qed

lemma closing_chars: "closing l \<Longrightarrow> \<forall>c\<in>set l. is_space c \<or> c = 125"
proof -
  assume c: "closing l"
  from strip_parts [of l] c obtain a b where
    "l = a @ [125] @ b" "list_all is_space a" "list_all is_space b"
    by (auto simp: closing_def lit_def)
  then show ?thesis by (auto simp: list_all_iff)
qed

lemma replacement_not_closing: "\<not> closing (replacement cf)"
proof
  assume "closing (replacement cf)"
  then have "\<forall>c\<in>set (replacement cf). is_space c \<or> c = 125" by (rule closing_chars)
  moreover have "104 \<in> set (replacement cf)" by (simp add: replacement_def lit_def)
  ultimately have "is_space 104 \<or> (104::nat) = 125" by blast
  then show False by (simp add: is_space_def)
qed

lemma closing_closing_line: "closing closing_line"
  by (simp add: closing_line_def closing_def strip_def is_space_def lit_def)

lemma round_output_folded:
  assumes "malformed (lines ! idx t)" and "pair_after lines (idx t)"
  shows "round_output uni lines t =
    [replacement (track_function uni (current_function t) (lines ! idx t)), closing_line]"
proof -
  from assms(2) obtain j where j: "idx t < j" "Suc j < length lines" "closing (lines ! j)"
    "closing (lines ! Suc j)" unfolding pair_after_iff by blast
  then obtain j0 where j0: "Suc (idx t) \<le> j0" "j0 \<le> j" "closing (lines ! j0)"
    "closing (lines ! Suc j0)"
    "\<forall>m. Suc (idx t) \<le> m \<and> m < j0 \<longrightarrow> \<not> (closing (lines ! m) \<and> closing (lines ! Suc m))"
    using first_pair [of "Suc (idx t)" j lines] by (metis Suc_leI)
  with j(2) assms(1) have "loop_body uni lines t =
     \<lparr>idx = j0 + 2,
      new_lines = new_lines t @
        [replacement (track_function uni (current_function t) (lines ! idx t)), closing_line],
      current_function = track_function uni (current_function t) (lines ! idx t)\<rparr>"
    by (intro loop_body_folded) auto
  then show ?thesis by (simp add: round_output_def)
qed

lemma round_output_truncated:
  assumes "malformed (lines ! idx t)" and "idx t < length lines"
    and "\<not> pair_after lines (idx t)"
  shows "round_output uni lines t =
    [replacement (track_function uni (current_function t) (lines ! idx t))]"
proof -
  from assms(3) have "\<forall>m. idx t < m \<and> Suc m < length lines \<longrightarrow>
      \<not> (closing (lines ! m) \<and> closing (lines ! Suc m))"
    unfolding pair_after_iff by blast
  with assms(1,2) have "loop_body uni lines t =
     \<lparr>idx = length lines + 1,
      new_lines = new_lines t @
        [replacement (track_function uni (current_function t) (lines ! idx t))],
      current_function = track_function uni (current_function t) (lines ! idx t)\<rparr>"
    by (intro loop_body_truncated)
  then show ?thesis by (simp add: round_output_def)
qed

lemma round_output_closing:
  assumes "idx t < length lines"
  shows "length (filter closing (round_output uni lines t)) =
    (if \<not> malformed (lines ! idx t) \<and> closing (lines ! idx t) then 1 else 0) +
    (if malformed (lines ! idx t) \<and> pair_after lines (idx t) then 1 else 0)"
proof (cases "malformed (lines ! idx t)")
  case False
  then show ?thesis by (simp add: round_output_plain)
next
  case True
  show ?thesis
  proof (cases "pair_after lines (idx t)")
    case p: True
    with True show ?thesis
      by (simp add: round_output_folded replacement_not_closing closing_closing_line)
  next
    case p: False
    with True assms show ?thesis
      by (simp add: round_output_truncated replacement_not_closing)
  qed
qed

lemma count_rounds:
  "\<forall>t\<in>set S. length (filter C (g t)) =
      (if P t \<and> C (f t) then 1 else 0) + (if Q t then 1 else 0) \<Longrightarrow>
   length (filter C (concat (map g S))) =
   length (filter C (map f (filter P S))) + length (filter Q S)"
  by (induction S) auto

lemma closing_count:
  "length (filter closing (fix_lines uni lines)) =
   length (filter closing
     (map ((!) lines) (filter (\<lambda>k. \<not> in_region uni lines k) [0..<length lines]))) +
   length (filter (\<lambda>t. malformed (lines ! idx t) \<and> pair_after lines (idx t))
     (scan_states uni lines initial_state))"
proof -
  let ?S = "scan_states uni lines initial_state"
  have out: "fix_lines uni lines = concat (map (round_output uni lines) ?S)"
    by (simp add: fix_lines_def main_loop_rounds_output) (simp add: initial_state_def)
  have outside: "map ((!) lines) (filter (\<lambda>k. \<not> in_region uni lines k) [0..<length lines]) =
      map (\<lambda>t. lines ! idx t) (filter (\<lambda>t. \<not> malformed (lines ! idx t)) ?S)"
    by (simp add: outside_indices comp_def)
  have "\<forall>t\<in>set ?S. length (filter closing (round_output uni lines t)) =
      (if \<not> malformed (lines ! idx t) \<and> closing (lines ! idx t) then 1 else 0) +
      (if malformed (lines ! idx t) \<and> pair_after lines (idx t) then 1 else 0)"
  proof
    fix t assume "t \<in> set ?S"
    from scan_states_idx [OF this] have "idx t < length lines" by simp
    then show "length (filter closing (round_output uni lines t)) =
      (if \<not> malformed (lines ! idx t) \<and> closing (lines ! idx t) then 1 else 0) +
      (if malformed (lines ! idx t) \<and> pair_after lines (idx t) then 1 else 0)"
      by (rule round_output_closing)
  qed
  then show ?thesis unfolding out outside by (rule count_rounds)
qed

lemma round_in_region:
  assumes "t \<in> set (scan_states uni lines initial_state)" and "malformed (lines ! idx t)"
    and "idx t \<le> i" and "i < idx (loop_body uni lines t)"
  shows "in_region uni lines i"
  using assms unfolding in_region_def by blast

subsection \<open>A malformed line followed by the two closing lines\<close>

text \<open>
  C2: let line \<open>k\<close> be malformed, and let \<open>j\<close> and \<open>j + 1\<close> be the first two consecutive
  closing lines after it. Then the round of the scan that consumes line \<open>k\<close> (the round
  at \<open>k\<close> itself when the scan reaches line \<open>k\<close>) appends the replacement line and
  exactly one closing line, and leaves the index at \<open>j + 2\<close>, behind both closing
  lines, so that neither is read again; the lines from \<open>idx t\<close> to \<open>j + 1\<close> are its
  repaired region. The whole output is the output for the lines before the round,
  these two lines, and what the scan writes when it goes on from \<open>j + 2\<close>.

  On every input, whatever the number of repairs, the closing lines of the output are
  as many as the closing lines outside the repaired regions plus one for each repair
  that found its two closing lines: a repair writes one closing line where its region
  had the two, and the count of closing lines outside the repaired regions does not
  change. In particular, when no line outside the region of this repair is malformed,
  all lines outside it are in the output as they were.
\<close>

theorem brace_folding:
  assumes "malformed (lines ! k)"
    and "k < j" and "Suc j < length lines"
    and "closing (lines ! j)" and "closing (lines ! Suc j)"
    and "\<forall>m. k < m \<and> m < j \<longrightarrow> \<not> (closing (lines ! m) \<and> closing (lines ! Suc m))"
  shows "(\<exists>t\<in>set (scan_states uni lines initial_state).
    idx t \<le> k \<and> malformed (lines ! idx t) \<and> pair_after lines (idx t) \<and>
    ((\<exists>u\<in>set (scan_states uni lines initial_state). idx u = k) \<longrightarrow> idx t = k) \<and>
    loop_body uni lines t =
      \<lparr>idx = j + 2,
       new_lines = new_lines t @
         [replacement (track_function uni (current_function t) (lines ! idx t)), closing_line],
       current_function = track_function uni (current_function t) (lines ! idx t)\<rparr> \<and>
    (\<forall>i. idx t \<le> i \<and> i < j + 2 \<longrightarrow> in_region uni lines i) \<and>
    fix_lines uni lines =
      fix_lines uni (take (idx t) lines) @
      [replacement (track_function uni (current_function t) (lines ! idx t)), closing_line] @
      new_lines (main_loop uni lines
        \<lparr>idx = j + 2, new_lines = [],
         current_function = track_function uni (current_function t) (lines ! idx t)\<rparr>) \<and>
    ((\<forall>m < length lines. malformed (lines ! m) \<longrightarrow> idx t \<le> m \<and> m < j) \<longrightarrow>
      fix_lines uni lines =
        take (idx t) lines @
        [replacement (track_function uni (current_function t) (lines ! idx t)), closing_line] @
        drop (j + 2) lines)) \<and>
   length (filter closing (fix_lines uni lines)) =
     length (filter closing
       (map ((!) lines) (filter (\<lambda>k. \<not> in_region uni lines k) [0..<length lines]))) +
     length (filter (\<lambda>t. malformed (lines ! idx t) \<and> pair_after lines (idx t))
       (scan_states uni lines initial_state))"
proof -
  from assms(2,3) have kl: "k < length lines" by simp
  from enclosing_round [OF kl assms(1), of uni] obtain t where
    t: "t \<in> set (scan_states uni lines initial_state)" "malformed (lines ! idx t)"
      "idx t \<le> k" "k < idx (loop_body uni lines t)"
      "\<forall>m. idx t < m \<and> m \<le> k \<longrightarrow> \<not> (closing (lines ! m) \<and> closing (lines ! Suc m))"
    by blast
  have first: "\<forall>m. idx t < m \<and> m < j \<longrightarrow> \<not> (closing (lines ! m) \<and> closing (lines ! Suc m))"
    using t(5) assms(6) by (metis not_le_imp_less)
  from t(3) assms(2) have tj: "idx t < j" by simp
  note f = folded_at [OF t(1,2) tj assms(3,4,5) first]
  from tj assms(3,4,5) have p: "pair_after lines (idx t)"
    unfolding pair_after_iff by blast
  from f have b: "idx (loop_body uni lines t) = j + 2" by simp
  have r: "\<forall>i. idx t \<le> i \<and> i < j + 2 \<longrightarrow> in_region uni lines i"
    using round_in_region [OF t(1,2)] b by simp
  have "idx t = k" if u: "u \<in> set (scan_states uni lines initial_state)" "idx u = k" for u
  proof -
    from u(2) loop_body_idx [of u uni lines]
    have "idx u \<le> k" "k < idx (loop_body uni lines u)" by simp_all
    with u(1) t(1) have "u = t" using t(3,4) by (metis scan_states_round_unique)
    with u(2) show ?thesis by simp
  qed
  then have "(\<exists>u\<in>set (scan_states uni lines initial_state). idx u = k) \<longrightarrow> idx t = k"
    by blast
  with t(1,2,3) f p r have "\<exists>t\<in>set (scan_states uni lines initial_state).
    idx t \<le> k \<and> malformed (lines ! idx t) \<and> pair_after lines (idx t) \<and>
    ((\<exists>u\<in>set (scan_states uni lines initial_state). idx u = k) \<longrightarrow> idx t = k) \<and>
    loop_body uni lines t =
      \<lparr>idx = j + 2,
       new_lines = new_lines t @
         [replacement (track_function uni (current_function t) (lines ! idx t)), closing_line],
       current_function = track_function uni (current_function t) (lines ! idx t)\<rparr> \<and>
    (\<forall>i. idx t \<le> i \<and> i < j + 2 \<longrightarrow> in_region uni lines i) \<and>
    fix_lines uni lines =
      fix_lines uni (take (idx t) lines) @
      [replacement (track_function uni (current_function t) (lines ! idx t)), closing_line] @
      new_lines (main_loop uni lines
        \<lparr>idx = j + 2, new_lines = [],
         current_function = track_function uni (current_function t) (lines ! idx t)\<rparr>) \<and>
    ((\<forall>m < length lines. malformed (lines ! m) \<longrightarrow> idx t \<le> m \<and> m < j) \<longrightarrow>
      fix_lines uni lines =
        take (idx t) lines @
        [replacement (track_function uni (current_function t) (lines ! idx t)), closing_line] @
        drop (j + 2) lines)"
    by blast
  with closing_count [of uni lines] show ?thesis by blast
qed

theorem brace_folding_witness:
  "malformed (two_folds_lines ! 4) \<and>
   closing (two_folds_lines ! 5) \<and> closing (two_folds_lines ! Suc 5) \<and>
   (\<exists>t\<in>set (scan_states ascii_only two_folds_lines initial_state).
      idx t \<le> 4 \<and> pair_after two_folds_lines (idx t) \<and>
      idx (loop_body ascii_only two_folds_lines t) = 5 + 2 \<and>
      new_lines (loop_body ascii_only two_folds_lines t) =
        new_lines t @
        [replacement (track_function ascii_only (current_function t)
           (two_folds_lines ! idx t)), closing_line]) \<and>
   fix_lines ascii_only two_folds_lines =
     [lit ''    handleControllerError(error, res, 'AiPermissionController.None');'',
      lit ''  }'',
      lit ''const x = 1;'',
      lit ''    handleControllerError(error, res, 'AiPermissionController.None');'',
      lit ''  }''] \<and>
   filter (\<lambda>k. \<not> in_region ascii_only two_folds_lines k) [0..<length two_folds_lines] = [3] \<and>
   length (filter closing (fix_lines ascii_only two_folds_lines)) =
     length (filter closing [two_folds_lines ! 3]) +
     length (filter (\<lambda>t. malformed (two_folds_lines ! idx t) \<and>
         pair_after two_folds_lines (idx t))
       (scan_states ascii_only two_folds_lines initial_state)) \<and>
   length (filter (\<lambda>t. malformed (two_folds_lines ! idx t) \<and>
       pair_after two_folds_lines (idx t))
     (scan_states ascii_only two_folds_lines initial_state)) = 2"
proof -
  let ?r = "lit ''    handleControllerError(error, res, 'AiPermissionController.None');''"
  have m: "malformed (two_folds_lines ! 4)"
    by (simp add: two_folds_lines_def eval_defs)
  have c5: "closing (two_folds_lines ! 5)" and c6: "closing (two_folds_lines ! Suc 5)"
    by (simp_all add: two_folds_lines_def eval_defs)
  have l: "(4::nat) < 5" "Suc 5 < length two_folds_lines"
    by (simp_all add: two_folds_lines_def)
  have n: "\<forall>i. 4 < i \<and> i < 5 \<longrightarrow>
      \<not> (closing (two_folds_lines ! i) \<and> closing (two_folds_lines ! Suc i))"
    by auto
  have s: "scan_states ascii_only two_folds_lines initial_state =
     [initial_state,
      \<lparr>idx = 3, new_lines = [?r, lit ''  }''], current_function = None\<rparr>,
      \<lparr>idx = 4, new_lines = [?r, lit ''  }'', lit ''const x = 1;''],
       current_function = None\<rparr>]"
    by (simp add: two_folds_lines_def scan_states.simps eval_defs)
  have f: "fix_lines ascii_only two_folds_lines =
     [?r, lit ''  }'', lit ''const x = 1;'', ?r, lit ''  }'']"
    by (simp add: two_folds_lines_def eval_defs)
  have reg: "in_region ascii_only two_folds_lines i \<longleftrightarrow> i < 3 \<or> 4 \<le> i \<and> i < 7" for i
    unfolding in_region_def s
    by (simp add: two_folds_lines_def eval_defs) arith
  have len: "length two_folds_lines = 7" by (simp add: two_folds_lines_def)
  have out: "filter (\<lambda>k. \<not> in_region ascii_only two_folds_lines k)
      [0..<length two_folds_lines] = [3]"
    unfolding reg len by (simp add: upt_rec)
  have two: "length (filter (\<lambda>t. malformed (two_folds_lines ! idx t) \<and>
       pair_after two_folds_lines (idx t))
     (scan_states ascii_only two_folds_lines initial_state)) = 2"
  proof -
    have c1: "closing (two_folds_lines ! 1)" and c2: "closing (two_folds_lines ! Suc 1)"
      and m0: "malformed (two_folds_lines ! 0)" and m3: "\<not> malformed (two_folds_lines ! 3)"
      by (simp_all add: two_folds_lines_def eval_defs)
    have "(0::nat) < 1 \<and> Suc 1 < length two_folds_lines \<and>
        closing (two_folds_lines ! 1) \<and> closing (two_folds_lines ! Suc 1)"
      using c1 c2 len by simp
    then have p0: "pair_after two_folds_lines 0" unfolding pair_after_iff by blast
    have "(4::nat) < 5 \<and> Suc 5 < length two_folds_lines \<and>
        closing (two_folds_lines ! 5) \<and> closing (two_folds_lines ! Suc 5)"
      using c5 c6 len by simp
    then have p4: "pair_after two_folds_lines 4" unfolding pair_after_iff by blast
    show ?thesis unfolding s using m0 m3 m p0 p4 by (simp add: initial_state_def)
  qed
  note b = brace_folding [OF m l c5 c6 n, of ascii_only]
  from b obtain t where t: "t \<in> set (scan_states ascii_only two_folds_lines initial_state)"
    "idx t \<le> 4" "pair_after two_folds_lines (idx t)"
    "loop_body ascii_only two_folds_lines t =
      \<lparr>idx = 5 + 2,
       new_lines = new_lines t @
         [replacement (track_function ascii_only (current_function t)
            (two_folds_lines ! idx t)), closing_line],
       current_function = track_function ascii_only (current_function t)
         (two_folds_lines ! idx t)\<rparr>"
    by blast
  from t(4) have "idx (loop_body ascii_only two_folds_lines t) = 5 + 2"
    and "new_lines (loop_body ascii_only two_folds_lines t) =
        new_lines t @
        [replacement (track_function ascii_only (current_function t)
           (two_folds_lines ! idx t)), closing_line]" by simp_all
  with t(1,2,3) have ex: "\<exists>t\<in>set (scan_states ascii_only two_folds_lines initial_state).
      idx t \<le> 4 \<and> pair_after two_folds_lines (idx t) \<and>
      idx (loop_body ascii_only two_folds_lines t) = 5 + 2 \<and>
      new_lines (loop_body ascii_only two_folds_lines t) =
        new_lines t @
        [replacement (track_function ascii_only (current_function t)
           (two_folds_lines ! idx t)), closing_line]"
    by blast
  from b have "length (filter closing (fix_lines ascii_only two_folds_lines)) =
     length (filter closing (map ((!) two_folds_lines)
       (filter (\<lambda>k. \<not> in_region ascii_only two_folds_lines k)
         [0..<length two_folds_lines]))) +
     length (filter (\<lambda>t. malformed (two_folds_lines ! idx t) \<and>
         pair_after two_folds_lines (idx t))
       (scan_states ascii_only two_folds_lines initial_state))"
    by blast
  then have cnt: "length (filter closing (fix_lines ascii_only two_folds_lines)) =
     length (filter closing [two_folds_lines ! 3]) +
     length (filter (\<lambda>t. malformed (two_folds_lines ! idx t) \<and>
         pair_after two_folds_lines (idx t))
       (scan_states ascii_only two_folds_lines initial_state))"
    unfolding out by simp
  from m c5 c6 ex f out cnt two show ?thesis by blast
qed

end
